theory Spec2Isabelle
  imports Main "HOL-Library.Monad_Syntax" "HOL-Library.Tree"
begin

section \<open>Data model\<close>

text \<open>
  The exported types of the tree module. \<open>NodeColor\<close> is the union \<open>'red' | 'black'\<close>.
  A \<open>SerializedNode\<close> names its relatives by id. Values are the integers the spec
  restricts the tree to.
\<close>

datatype NodeColor = red | black

record SerializedNode =
  sid :: string
  svalue :: int
  scolor :: NodeColor
  parentId :: "string option"
  leftId :: "string option"
  rightId :: "string option"

text \<open>
  \<open>SnapshotChanges\<close>: the entries of \<open>added\<close>, \<open>removed\<close> and \<open>moved\<close> are
  \<open>{id, value}\<close>, the entries of \<open>recolored\<close> are \<open>{id, value, from, to}\<close>.
\<close>

record SnapshotChanges =
  added :: "(string \<times> int) list"
  removed :: "(string \<times> int) list"
  recolored :: "(string \<times> int \<times> NodeColor \<times> NodeColor) list"
  moved :: "(string \<times> int) list"

text \<open>
  The step descriptions and operation labels are template literals in Korean; each
  template is one constructor here, carrying the values the template interpolates.
\<close>

datatype Description =
    AlreadyInTree int            \<comment> \<open>insert, existing value: "<v> already exists in the tree"\<close>
  | InsertedAsRoot int           \<comment> \<open>"insert <v> as the root"\<close>
  | InsertedAsLeft int int       \<comment> \<open>"insert <v> as the left child of <p>"\<close>
  | InsertedAsRight int int      \<comment> \<open>"insert <v> as the right child of <p>"\<close>
  | KeepRootBlack                \<comment> \<open>"keep the root black"\<close>
  | NotFound int                 \<comment> \<open>delete, absent value: "no node with value <v> was found"\<close>
  | DeletingNode int             \<comment> \<open>"deleting node <v>"\<close>
  | ReplacedByRight int          \<comment> \<open>"replaced by the right child of <v>"\<close>
  | ReplacedByLeft int           \<comment> \<open>"replaced by the left child of <v>"\<close>
  | PulledUp int                 \<comment> \<open>"pull <y> up from the right subtree"\<close>
  | Substituted int int          \<comment> \<open>"<y> takes the place of <v>"\<close>
  | TreeIsEmpty                  \<comment> \<open>"the tree is empty"\<close>
  | RecolorParentUncle int int   \<comment> \<open>"parent <p> and uncle <u> are red, recolor"\<close>
  | LeftRotation int             \<comment> \<open>"left rotation (pivot: <v>)"\<close>
  | RightRotation int            \<comment> \<open>"right rotation (pivot: <v>)"\<close>
  | SiblingRedPrepareLeft        \<comment> \<open>"sibling is red, prepare left rotation"\<close>
  | SiblingRedPrepareRight       \<comment> \<open>"sibling is red, prepare right rotation"\<close>
  | SiblingAllBlack              \<comment> \<open>"sibling and its children all black, sibling to red"\<close>
  | SiblingLeftRedRotateRight    \<comment> \<open>"sibling's left child is red, right rotation"\<close>
  | SiblingRightRedRotateLeft    \<comment> \<open>"sibling's right child is red, left rotation"\<close>
  | FinallyBlack                 \<comment> \<open>"finally set to black"\<close>

datatype Label =
    InsertCancelled int          \<comment> \<open>"<v> insertion cancelled"\<close>
  | Inserted int                 \<comment> \<open>"<v> insertion"\<close>
  | DeleteCancelled int          \<comment> \<open>"<v> deletion cancelled"\<close>
  | Deleted int                  \<comment> \<open>"<v> deletion"\<close>

text \<open>
  \<open>TreeSnapshot\<close> and \<open>OperationRecord\<close>. Their \<open>id\<close> fields are built from the clock
  and a random number and are left out.
\<close>

record TreeSnapshot =
  description :: Description
  nodes :: "SerializedNode list"
  highlightNodeIds :: "string list"
  changes :: SnapshotChanges

record OperationRecord =
  label :: Label
  snapshots :: "TreeSnapshot list"

text \<open>
  \<open>RBNode\<close> objects live in a store: a reference is a natural number, \<open>None\<close> is
  \<open>null\<close>. The class \<open>RedBlackTree\<close> has the fields \<open>root\<close> and \<open>nodeCounter\<close>; the
  store of its nodes is the third field of the state. A node is allocated at the
  reference given by the counter that also names it.
\<close>

record RBNode =
  nid :: string
  nvalue :: int
  color :: NodeColor
  left :: "nat option"
  right :: "nat option"
  parent :: "nat option"

record RedBlackTree =
  root :: "nat option"
  nodeCounter :: nat
  heap :: "nat \<Rightarrow> RBNode"

text \<open>The state of one running operation: the tree and the variables of the \<open>record\<close> closure.\<close>

record Recording =
  tree :: RedBlackTree
  snaps :: "TreeSnapshot list"
  previousNodes :: "SerializedNode list"

section \<open>Helpers\<close>

text \<open>Decimal rendering of the counter inside the template \<open>node-${n}\<close>.\<close>

definition digit_char :: "nat \<Rightarrow> char" where
  "digit_char d = ''0123456789'' ! d"

fun show_nat :: "nat \<Rightarrow> string" where
  "show_nat n = (if n < 10 then [digit_char n] else show_nat (n div 10) @ [digit_char (n mod 10)])"

declare show_nat.simps [simp del]

definition node_name :: "nat \<Rightarrow> string" where
  "node_name n = ''node-'' @ show_nat n"

text \<open>\<open>compact\<close> keeps the ids that are truthy: neither absent nor the empty string.\<close>

definition compact :: "string option list \<Rightarrow> string list" where
  "compact ids = concat (map (\<lambda>i. case i of None \<Rightarrow> [] | Some s \<Rightarrow> if s = [] then [] else [s]) ids)"

text \<open>A JavaScript \<open>Map\<close> built from a list of pairs: a later pair overrides an earlier one.\<close>

definition js_map_get :: "('k \<times> 'v) list \<Rightarrow> 'k \<Rightarrow> 'v option" where
  "js_map_get kvs = map_of (rev kvs)"

text \<open>Field writes on a node of the store.\<close>

definition set_color :: "nat \<Rightarrow> NodeColor \<Rightarrow> RedBlackTree \<Rightarrow> RedBlackTree" where
  "set_color a c s = s\<lparr>heap := (heap s)(a := (heap s a)\<lparr>color := c\<rparr>)\<rparr>"

definition set_left :: "nat \<Rightarrow> nat option \<Rightarrow> RedBlackTree \<Rightarrow> RedBlackTree" where
  "set_left a v s = s\<lparr>heap := (heap s)(a := (heap s a)\<lparr>left := v\<rparr>)\<rparr>"

definition set_right :: "nat \<Rightarrow> nat option \<Rightarrow> RedBlackTree \<Rightarrow> RedBlackTree" where
  "set_right a v s = s\<lparr>heap := (heap s)(a := (heap s a)\<lparr>right := v\<rparr>)\<rparr>"

definition set_parent :: "nat \<Rightarrow> nat option \<Rightarrow> RedBlackTree \<Rightarrow> RedBlackTree" where
  "set_parent a v s = s\<lparr>heap := (heap s)(a := (heap s a)\<lparr>parent := v\<rparr>)\<rparr>"

text \<open>\<open>n?.id\<close> on a reference that may be null.\<close>

definition id_of :: "RedBlackTree \<Rightarrow> nat option \<Rightarrow> string option" where
  "id_of s p = map_option (\<lambda>a. nid (heap s a)) p"

section \<open>The diff engine\<close>

definition diffSnapshots :: "SerializedNode list \<Rightarrow> SerializedNode list \<Rightarrow> SnapshotChanges" where
  "diffSnapshots previous current =
     (let prevMap = js_map_get (map (\<lambda>n. (sid n, n)) previous);
          currentMap = js_map_get (map (\<lambda>n. (sid n, n)) current)
      in \<lparr> added = concat (map (\<lambda>n. case prevMap (sid n) of
                                None \<Rightarrow> [(sid n, svalue n)]
                              | Some p \<Rightarrow> []) current),
           removed = concat (map (\<lambda>n. if currentMap (sid n) = None
                                then [(sid n, svalue n)] else []) previous),
           recolored = concat (map (\<lambda>n. case prevMap (sid n) of
                                None \<Rightarrow> []
                              | Some p \<Rightarrow> if scolor p \<noteq> scolor n
                                  then [(sid n, svalue n, scolor p, scolor n)] else []) current),
           moved = concat (map (\<lambda>n. case prevMap (sid n) of
                                None \<Rightarrow> []
                              | Some p \<Rightarrow> if parentId p \<noteq> parentId n \<or> leftId p \<noteq> leftId n
                                              \<or> rightId p \<noteq> rightId n
                                  then [(sid n, svalue n)] else []) current) \<rparr>)"

section \<open>The snapshot serializer\<close>

definition export_node :: "RedBlackTree \<Rightarrow> nat \<Rightarrow> SerializedNode" where
  "export_node s a =
     \<lparr> sid = nid (heap s a), svalue = nvalue (heap s a), scolor = color (heap s a),
       parentId = id_of s (parent (heap s a)),
       leftId = id_of s (left (heap s a)),
       rightId = id_of s (right (heap s a)) \<rparr>"

text \<open>
  \<open>traverse\<close> pushes the node, then visits the left and the right child. It follows
  the references of the store, so on a store with a cycle it does not return.
\<close>

partial_function (option) traverse ::
  "RedBlackTree \<Rightarrow> nat option \<Rightarrow> SerializedNode list \<Rightarrow> SerializedNode list option" where
  "traverse s node acc =
     (case node of
        None \<Rightarrow> Some acc
      | Some a \<Rightarrow>
          traverse s (left (heap s a)) (acc @ [export_node s a]) \<bind>
            (\<lambda>acc'. traverse s (right (heap s a)) acc'))"

declare traverse.simps [code]

definition serializeTree :: "RedBlackTree \<Rightarrow> SerializedNode list option" where
  "serializeTree s = traverse s (root s) []"

section \<open>The operation recorder\<close>

definition recordSnapshot :: "Description \<Rightarrow> string list \<Rightarrow> Recording \<Rightarrow> Recording option" where
  "recordSnapshot d highlight st =
     serializeTree (tree st) \<bind> (\<lambda>ns.
       let validHighlights = filter (\<lambda>i. i \<in> set (map sid ns)) highlight;
           ch = diffSnapshots (previousNodes st) ns
       in Some (st\<lparr> snaps := snaps st @
                      [\<lparr> description = d, nodes = ns,
                         highlightNodeIds = validHighlights, changes = ch \<rparr>],
                    previousNodes := ns \<rparr>))"

definition startRecording :: "RedBlackTree \<Rightarrow> Recording option" where
  "startRecording s =
     serializeTree s \<bind> (\<lambda>ns. Some \<lparr> tree = s, snaps = [], previousNodes = ns \<rparr>)"

definition on_tree :: "(RedBlackTree \<Rightarrow> RedBlackTree) \<Rightarrow> Recording \<Rightarrow> Recording" where
  "on_tree f st = st\<lparr>tree := f (tree st)\<rparr>"

section \<open>The tree engine\<close>

partial_function (option) find_from :: "RedBlackTree \<Rightarrow> int \<Rightarrow> nat option \<Rightarrow> nat option option" where
  "find_from s v current =
     (case current of
        None \<Rightarrow> Some None
      | Some a \<Rightarrow>
          if v = nvalue (heap s a) then Some (Some a)
          else find_from s v (if v < nvalue (heap s a) then left (heap s a) else right (heap s a)))"

declare find_from.simps [code]

definition rb_find :: "RedBlackTree \<Rightarrow> int \<Rightarrow> nat option option" where
  "rb_find s v = find_from s v (root s)"

definition has :: "RedBlackTree \<Rightarrow> int \<Rightarrow> bool option" where
  "has s v = map_option (\<lambda>r. r \<noteq> None) (rb_find s v)"

definition reset :: "RedBlackTree \<Rightarrow> RedBlackTree" where
  "reset s = s\<lparr>root := None, nodeCounter := 0\<rparr>"

definition rotateLeft :: "nat \<Rightarrow> RedBlackTree \<Rightarrow> RedBlackTree" where
  "rotateLeft x s =
     (case right (heap s x) of
        None \<Rightarrow> s
      | Some y \<Rightarrow>
          let s1 = set_right x (left (heap s y)) s;
              s2 = (case left (heap s1 y) of None \<Rightarrow> s1 | Some yl \<Rightarrow> set_parent yl (Some x) s1);
              s3 = set_parent y (parent (heap s2 x)) s2;
              s4 = (case parent (heap s3 x) of
                      None \<Rightarrow> s3\<lparr>root := Some y\<rparr>
                    | Some xp \<Rightarrow>
                        if left (heap s3 xp) = Some x then set_left xp (Some y) s3
                        else set_right xp (Some y) s3);
              s5 = set_left y (Some x) s4
          in set_parent x (Some y) s5)"

definition rotateRight :: "nat \<Rightarrow> RedBlackTree \<Rightarrow> RedBlackTree" where
  "rotateRight x s =
     (case left (heap s x) of
        None \<Rightarrow> s
      | Some y \<Rightarrow>
          let s1 = set_left x (right (heap s y)) s;
              s2 = (case right (heap s1 y) of None \<Rightarrow> s1 | Some yr \<Rightarrow> set_parent yr (Some x) s1);
              s3 = set_parent y (parent (heap s2 x)) s2;
              s4 = (case parent (heap s3 x) of
                      None \<Rightarrow> s3\<lparr>root := Some y\<rparr>
                    | Some xp \<Rightarrow>
                        if right (heap s3 xp) = Some x then set_right xp (Some y) s3
                        else set_left xp (Some y) s3);
              s5 = set_right y (Some x) s4
          in set_parent x (Some y) s5)"

definition transplant :: "nat \<Rightarrow> nat option \<Rightarrow> RedBlackTree \<Rightarrow> RedBlackTree" where
  "transplant u v s =
     (let s1 = (case parent (heap s u) of
                  None \<Rightarrow> s\<lparr>root := v\<rparr>
                | Some up \<Rightarrow>
                    if left (heap s up) = Some u then set_left up v s
                    else set_right up v s)
      in case v of None \<Rightarrow> s1 | Some b \<Rightarrow> set_parent b (parent (heap s1 u)) s1)"

partial_function (option) minimum :: "RedBlackTree \<Rightarrow> nat \<Rightarrow> nat option" where
  "minimum s current =
     (case left (heap s current) of
        None \<Rightarrow> Some current
      | Some l \<Rightarrow> minimum s l)"

declare minimum.simps [code]


text \<open>The tests \<open>n?.color === 'red'\<close> and \<open>isBlack(n)\<close> on a reference that may be null.\<close>

definition is_red :: "RedBlackTree \<Rightarrow> nat option \<Rightarrow> bool" where
  "is_red s p = (case p of None \<Rightarrow> False | Some a \<Rightarrow> color (heap s a) = red)"

definition isBlack :: "RedBlackTree \<Rightarrow> nat option \<Rightarrow> bool" where
  "isBlack s p = (case p of None \<Rightarrow> True | Some a \<Rightarrow> color (heap s a) = black)"

text \<open>The field reads \<open>p?.left ?? null\<close>, \<open>p?.right ?? null\<close>, \<open>p?.parent ?? null\<close>.\<close>

definition opt_left :: "RedBlackTree \<Rightarrow> nat option \<Rightarrow> nat option" where
  "opt_left s p = (case p of None \<Rightarrow> None | Some a \<Rightarrow> left (heap s a))"

definition opt_right :: "RedBlackTree \<Rightarrow> nat option \<Rightarrow> nat option" where
  "opt_right s p = (case p of None \<Rightarrow> None | Some a \<Rightarrow> right (heap s a))"

definition opt_parent :: "RedBlackTree \<Rightarrow> nat option \<Rightarrow> nat option" where
  "opt_parent s p = (case p of None \<Rightarrow> None | Some a \<Rightarrow> parent (heap s a))"

text \<open>
  A call \<open>record(d, compact(a.id, b?.id, ...))\<close>: the references are read in the tree
  as it is at the call.
\<close>

definition recordCompact ::
  "Description \<Rightarrow> (RedBlackTree \<Rightarrow> nat option list) \<Rightarrow> Recording \<Rightarrow> Recording option" where
  "recordCompact d refs st =
     recordSnapshot d (compact (map (id_of (tree st)) (refs (tree st)))) st"

subsection \<open>Insert fixup\<close>

text \<open>What one run of a loop body decides: go round again with a new focus, or leave the loop.\<close>

datatype InsertLoop = InsertAgain nat Recording | InsertBreak Recording

definition fixInsert_recolor :: "nat \<Rightarrow> nat \<Rightarrow> nat \<Rightarrow> Recording \<Rightarrow> InsertLoop option" where
  "fixInsert_recolor p u g st =
     (let st1 = on_tree (set_color g red) (on_tree (set_color u black) (on_tree (set_color p black) st));
          s1 = tree st1
      in recordSnapshot (RecolorParentUncle (nvalue (heap s1 p)) (nvalue (heap s1 u)))
           [nid (heap s1 p), nid (heap s1 u), nid (heap s1 g)] st1 \<bind>
         (\<lambda>st2. Some (InsertAgain g st2)))"

text \<open>
  The uncle is black or absent and the parent is the grandparent's left child. The
  variables \<open>parent\<close> and \<open>grandParent\<close> keep the nodes read at the top of the loop body.
\<close>

definition fixInsert_rotate_left_side :: "nat \<Rightarrow> nat \<Rightarrow> nat \<Rightarrow> Recording \<Rightarrow> InsertLoop option" where
  "fixInsert_rotate_left_side node p g st =
     (if right (heap (tree st) p) = Some node
      then recordCompact (LeftRotation (nvalue (heap (tree st) p)))
             (\<lambda>s. [Some p, parent (heap s p)]) (on_tree (rotateLeft p) st) \<bind>
           (\<lambda>st1. Some (p, st1))
      else Some (node, st)) \<bind>
     (\<lambda>(node1, st1).
        let st2 = on_tree (rotateRight g)
                    (on_tree (set_color g red) (on_tree (set_color p black) st1))
        in recordCompact (RightRotation (nvalue (heap (tree st2) g)))
             (\<lambda>s. [Some p, Some g, parent (heap s p)]) st2 \<bind>
           (\<lambda>st3. Some (InsertAgain node1 st3)))"

definition fixInsert_rotate_right_side :: "nat \<Rightarrow> nat \<Rightarrow> nat \<Rightarrow> Recording \<Rightarrow> InsertLoop option" where
  "fixInsert_rotate_right_side node p g st =
     (if left (heap (tree st) p) = Some node
      then recordCompact (RightRotation (nvalue (heap (tree st) p)))
             (\<lambda>s. [Some p, parent (heap s p)]) (on_tree (rotateRight p) st) \<bind>
           (\<lambda>st1. Some (p, st1))
      else Some (node, st)) \<bind>
     (\<lambda>(node1, st1).
        let st2 = on_tree (rotateLeft g)
                    (on_tree (set_color g red) (on_tree (set_color p black) st1))
        in recordCompact (LeftRotation (nvalue (heap (tree st2) g)))
             (\<lambda>s. [Some p, Some g, parent (heap s p)]) st2 \<bind>
           (\<lambda>st3. Some (InsertAgain node1 st3)))"

text \<open>
  The loop body. The loop condition makes \<open>node.parent\<close> non-null, so the first
  \<open>None\<close> case is never taken.
\<close>

definition fixInsert_body :: "nat \<Rightarrow> Recording \<Rightarrow> InsertLoop option" where
  "fixInsert_body node st =
     (let s = tree st in
      case parent (heap s node) of
        None \<Rightarrow> Some (InsertBreak st)
      | Some p \<Rightarrow>
          (case parent (heap s p) of
             None \<Rightarrow> Some (InsertBreak st)
           | Some g \<Rightarrow>
               if left (heap s g) = Some p then
                 (case right (heap s g) of
                    None \<Rightarrow> fixInsert_rotate_left_side node p g st
                  | Some u \<Rightarrow>
                      if color (heap s u) = red then fixInsert_recolor p u g st
                      else fixInsert_rotate_left_side node p g st)
               else
                 (case left (heap s g) of
                    None \<Rightarrow> fixInsert_rotate_right_side node p g st
                  | Some u \<Rightarrow>
                      if color (heap s u) = red then fixInsert_recolor p u g st
                      else fixInsert_rotate_right_side node p g st)))"

partial_function (option) fixInsert :: "nat \<Rightarrow> Recording \<Rightarrow> Recording option" where
  "fixInsert node st =
     (if Some node \<noteq> root (tree st) \<and> is_red (tree st) (parent (heap (tree st) node))
      then fixInsert_body node st \<bind>
             (\<lambda>r. case r of InsertAgain n st1 \<Rightarrow> fixInsert n st1 | InsertBreak st1 \<Rightarrow> Some st1)
      else Some st)"

declare fixInsert.simps [code]

subsection \<open>Insert\<close>

text \<open>The descent to the insertion point; the loop variables \<open>parent\<close> and \<open>current\<close> come first.\<close>

partial_function (option) descend ::
  "nat option \<Rightarrow> nat option \<Rightarrow> RedBlackTree \<Rightarrow> int \<Rightarrow> nat option option" where
  "descend par current s v =
     (case current of
        None \<Rightarrow> Some par
      | Some c \<Rightarrow>
          if v < nvalue (heap s c) then descend (Some c) (left (heap s c)) s v
          else descend (Some c) (right (heap s c)) s v)"

declare descend.simps [code]

definition blackenRoot :: "Recording \<Rightarrow> Recording option" where
  "blackenRoot st =
     (case root (tree st) of
        None \<Rightarrow> Some st
      | Some r \<Rightarrow>
          recordSnapshot KeepRootBlack [nid (heap (tree st) r)] (on_tree (set_color r black) st))"

definition attach :: "int \<Rightarrow> nat \<Rightarrow> nat option \<Rightarrow> Recording \<Rightarrow> Recording option" where
  "attach v a par st =
     (let st1 = on_tree (set_parent a par) st; s1 = tree st1 in
      case par of
        None \<Rightarrow>
          recordSnapshot (InsertedAsRoot v) [nid (heap s1 a)] (on_tree (\<lambda>s. s\<lparr>root := Some a\<rparr>) st1)
      | Some p \<Rightarrow>
          if v < nvalue (heap s1 p)
          then recordSnapshot (InsertedAsLeft v (nvalue (heap s1 p)))
                 [nid (heap s1 a), nid (heap s1 p)] (on_tree (set_left p (Some a)) st1)
          else recordSnapshot (InsertedAsRight v (nvalue (heap s1 p)))
                 [nid (heap s1 a), nid (heap s1 p)] (on_tree (set_right p (Some a)) st1))"

definition newNode :: "int \<Rightarrow> RedBlackTree \<Rightarrow> RedBlackTree" where
  "newNode v s =
     s\<lparr> nodeCounter := nodeCounter s + 1,
        heap := (heap s)(nodeCounter s :=
                  \<lparr> nid = node_name (nodeCounter s), nvalue = v, color = red,
                    left = None, right = None, parent = None \<rparr>) \<rparr>"

definition rb_insert :: "int \<Rightarrow> RedBlackTree \<Rightarrow> (RedBlackTree \<times> OperationRecord) option" where
  "rb_insert v s =
     startRecording s \<bind> (\<lambda>st0.
     rb_find s v \<bind> (\<lambda>existing.
     case existing of
       Some e \<Rightarrow>
         recordSnapshot (AlreadyInTree v) [nid (heap s e)] st0 \<bind> (\<lambda>st1.
         Some (tree st1, \<lparr> label = InsertCancelled v, snapshots = snaps st1 \<rparr>))
     | None \<Rightarrow>
         (let a = nodeCounter s; st1 = on_tree (newNode v) st0 in
          descend None (root (tree st1)) (tree st1) v \<bind> (\<lambda>par.
          attach v a par st1 \<bind> (\<lambda>st2.
          fixInsert a st2 \<bind> (\<lambda>st3.
          blackenRoot st3 \<bind> (\<lambda>st4.
          Some (tree st4, \<lparr> label = Inserted v, snapshots = snaps st4 \<rparr>))))))))"

definition emptyTree :: RedBlackTree where
  "emptyTree = \<lparr> root = None, nodeCounter = 0,
                 heap = (\<lambda>_. \<lparr> nid = [], nvalue = 0, color = black,
                               left = None, right = None, parent = None \<rparr>) \<rparr>"


subsection \<open>Delete fixup\<close>

datatype DeleteLoop =
    DeleteAgain "nat option" "nat option" Recording
  | DeleteBreak "nat option" Recording

text \<open>
  The branch taken when \<open>current\<close> is the left child of \<open>currentParent\<close>. The
  variable \<open>sibling\<close> is re-read from the parent only where the source re-reads it.
\<close>

definition fixDelete_red_sibling_left ::
  "nat option \<Rightarrow> nat \<Rightarrow> Recording \<Rightarrow> (nat option \<times> Recording) option" where
  "fixDelete_red_sibling_left currentParent sb st =
     (if color (heap (tree st) sb) = red then
        (let st1 = on_tree (set_color sb black) st in
         (case currentParent of
            None \<Rightarrow> Some st1
          | Some cp \<Rightarrow>
              recordCompact SiblingRedPrepareLeft
                (\<lambda>s. [Some cp, Some sb, left (heap s sb), right (heap s sb)])
                (on_tree (set_color cp red) st1) \<bind> (\<lambda>st2.
              recordCompact (LeftRotation (nvalue (heap (tree st2) cp)))
                (\<lambda>s. [Some sb, Some cp, parent (heap s cp), left (heap s sb), right (heap s sb)])
                (on_tree (rotateLeft cp) st2))) \<bind>
         (\<lambda>st3. Some (opt_right (tree st3) currentParent, st3)))
      else Some (Some sb, st))"

definition fixDelete_far_black_left ::
  "nat option \<Rightarrow> nat option \<Rightarrow> Recording \<Rightarrow> (nat option \<times> Recording) option" where
  "fixDelete_far_black_left currentParent sibling st =
     (if isBlack (tree st) (opt_right (tree st) sibling) then
        (let st1 = (case opt_left (tree st) sibling of
                      None \<Rightarrow> st
                    | Some sl \<Rightarrow> on_tree (set_color sl black) st)
         in (case sibling of
               None \<Rightarrow> Some st1
             | Some sb \<Rightarrow>
                 recordCompact SiblingLeftRedRotateRight
                   (\<lambda>s. [Some sb, left (heap s sb), right (heap s sb)])
                   (on_tree (set_color sb red) st1) \<bind> (\<lambda>st2.
                 Some (on_tree (rotateRight sb) st2))) \<bind>
            (\<lambda>st3. Some (opt_right (tree st3) currentParent, st3)))
      else Some (sibling, st))"

definition fixDelete_final_left ::
  "nat option \<Rightarrow> nat option \<Rightarrow> Recording \<Rightarrow> DeleteLoop option" where
  "fixDelete_final_left currentParent sibling st =
     (let st1 = (case sibling of
                   None \<Rightarrow> st
                 | Some sb \<Rightarrow>
                     let st' = on_tree (set_color sb
                                 (case currentParent of
                                    None \<Rightarrow> black
                                  | Some cp \<Rightarrow> color (heap (tree st) cp))) st
                     in (case right (heap (tree st') sb) of
                           None \<Rightarrow> st'
                         | Some sr \<Rightarrow> on_tree (set_color sr black) st'))
      in (case currentParent of
            None \<Rightarrow> Some st1
          | Some cp \<Rightarrow>
              recordCompact SiblingRightRedRotateLeft
                (\<lambda>s. [Some cp, sibling, opt_right s sibling, opt_left s sibling])
                (on_tree (set_color cp black) st1) \<bind> (\<lambda>st2.
              Some (on_tree (rotateLeft cp) st2))) \<bind>
         (\<lambda>st3. Some (DeleteBreak (root (tree st3)) st3)))"

definition fixDelete_left :: "nat option \<Rightarrow> Recording \<Rightarrow> DeleteLoop option" where
  "fixDelete_left currentParent st =
     (case opt_right (tree st) currentParent of
        None \<Rightarrow> Some (DeleteAgain currentParent (opt_parent (tree st) currentParent) st)
      | Some sb \<Rightarrow>
          fixDelete_red_sibling_left currentParent sb st \<bind> (\<lambda>(sibling, st1).
            if isBlack (tree st1) (opt_left (tree st1) sibling) \<and>
               isBlack (tree st1) (opt_right (tree st1) sibling)
            then (case sibling of
                    None \<Rightarrow> Some st1
                  | Some sb1 \<Rightarrow>
                      recordCompact SiblingAllBlack (\<lambda>s. [Some sb1, currentParent])
                        (on_tree (set_color sb1 red) st1)) \<bind>
                 (\<lambda>st2. Some (DeleteAgain currentParent
                                (opt_parent (tree st2) currentParent) st2))
            else fixDelete_far_black_left currentParent sibling st1 \<bind> (\<lambda>(sibling2, st2).
                   fixDelete_final_left currentParent sibling2 st2)))"

text \<open>The mirrored branch.\<close>

definition fixDelete_red_sibling_right ::
  "nat option \<Rightarrow> nat \<Rightarrow> Recording \<Rightarrow> (nat option \<times> Recording) option" where
  "fixDelete_red_sibling_right currentParent sb st =
     (if color (heap (tree st) sb) = red then
        (let st1 = on_tree (set_color sb black) st in
         (case currentParent of
            None \<Rightarrow> Some st1
          | Some cp \<Rightarrow>
              recordCompact SiblingRedPrepareRight
                (\<lambda>s. [Some cp, Some sb, left (heap s sb), right (heap s sb)])
                (on_tree (set_color cp red) st1) \<bind> (\<lambda>st2.
              recordCompact (RightRotation (nvalue (heap (tree st2) cp)))
                (\<lambda>s. [Some sb, Some cp, parent (heap s cp), left (heap s sb), right (heap s sb)])
                (on_tree (rotateRight cp) st2))) \<bind>
         (\<lambda>st3. Some (opt_left (tree st3) currentParent, st3)))
      else Some (Some sb, st))"

definition fixDelete_far_black_right ::
  "nat option \<Rightarrow> nat option \<Rightarrow> Recording \<Rightarrow> (nat option \<times> Recording) option" where
  "fixDelete_far_black_right currentParent sibling st =
     (if isBlack (tree st) (opt_left (tree st) sibling) then
        (let st1 = (case opt_right (tree st) sibling of
                      None \<Rightarrow> st
                    | Some sr \<Rightarrow> on_tree (set_color sr black) st)
         in (case sibling of
               None \<Rightarrow> Some st1
             | Some sb \<Rightarrow>
                 recordCompact SiblingRightRedRotateLeft
                   (\<lambda>s. [Some sb, left (heap s sb), right (heap s sb)])
                   (on_tree (set_color sb red) st1) \<bind> (\<lambda>st2.
                 Some (on_tree (rotateLeft sb) st2))) \<bind>
            (\<lambda>st3. Some (opt_left (tree st3) currentParent, st3)))
      else Some (sibling, st))"

definition fixDelete_final_right ::
  "nat option \<Rightarrow> nat option \<Rightarrow> Recording \<Rightarrow> DeleteLoop option" where
  "fixDelete_final_right currentParent sibling st =
     (let st1 = (case sibling of
                   None \<Rightarrow> st
                 | Some sb \<Rightarrow>
                     let st' = on_tree (set_color sb
                                 (case currentParent of
                                    None \<Rightarrow> black
                                  | Some cp \<Rightarrow> color (heap (tree st) cp))) st
                     in (case left (heap (tree st') sb) of
                           None \<Rightarrow> st'
                         | Some sl \<Rightarrow> on_tree (set_color sl black) st'))
      in (case currentParent of
            None \<Rightarrow> Some st1
          | Some cp \<Rightarrow>
              recordCompact SiblingLeftRedRotateRight
                (\<lambda>s. [Some cp, sibling, opt_left s sibling, opt_right s sibling])
                (on_tree (set_color cp black) st1) \<bind> (\<lambda>st2.
              Some (on_tree (rotateRight cp) st2))) \<bind>
         (\<lambda>st3. Some (DeleteBreak (root (tree st3)) st3)))"

definition fixDelete_right :: "nat option \<Rightarrow> Recording \<Rightarrow> DeleteLoop option" where
  "fixDelete_right currentParent st =
     (case opt_left (tree st) currentParent of
        None \<Rightarrow> Some (DeleteAgain currentParent (opt_parent (tree st) currentParent) st)
      | Some sb \<Rightarrow>
          fixDelete_red_sibling_right currentParent sb st \<bind> (\<lambda>(sibling, st1).
            if isBlack (tree st1) (opt_right (tree st1) sibling) \<and>
               isBlack (tree st1) (opt_left (tree st1) sibling)
            then (case sibling of
                    None \<Rightarrow> Some st1
                  | Some sb1 \<Rightarrow>
                      recordCompact SiblingAllBlack (\<lambda>s. [Some sb1, currentParent])
                        (on_tree (set_color sb1 red) st1)) \<bind>
                 (\<lambda>st2. Some (DeleteAgain currentParent
                                (opt_parent (tree st2) currentParent) st2))
            else fixDelete_far_black_right currentParent sibling st1 \<bind> (\<lambda>(sibling2, st2).
                   fixDelete_final_right currentParent sibling2 st2)))"

definition fixDelete_body :: "nat option \<Rightarrow> nat option \<Rightarrow> Recording \<Rightarrow> DeleteLoop option" where
  "fixDelete_body current currentParent st =
     (if current = opt_left (tree st) currentParent
      then fixDelete_left currentParent st
      else fixDelete_right currentParent st)"

partial_function (option) fixDelete_loop ::
  "nat option \<Rightarrow> nat option \<Rightarrow> Recording \<Rightarrow> (nat option \<times> Recording) option" where
  "fixDelete_loop current currentParent st =
     (if current \<noteq> root (tree st) \<and> isBlack (tree st) current
      then fixDelete_body current currentParent st \<bind>
             (\<lambda>r. case r of
                     DeleteAgain c cp st1 \<Rightarrow> fixDelete_loop c cp st1
                   | DeleteBreak c st1 \<Rightarrow> Some (c, st1))
      else Some (current, st))"

declare fixDelete_loop.simps [code]

definition fixDelete :: "nat option \<Rightarrow> nat option \<Rightarrow> Recording \<Rightarrow> Recording option" where
  "fixDelete node par st =
     fixDelete_loop node par st \<bind> (\<lambda>(current, st1).
       case current of
         None \<Rightarrow> Some st1
       | Some c \<Rightarrow>
           recordSnapshot FinallyBlack [nid (heap (tree st1) c)] (on_tree (set_color c black) st1))"

subsection \<open>Delete\<close>

text \<open>
  The three ways of splicing the target \<open>z\<close> out. Each returns the color that was
  vacated (\<open>yOriginalColor\<close>), \<open>x\<close> and \<open>xParent\<close>, and the recording.
\<close>

definition delete_no_left ::
  "int \<Rightarrow> nat \<Rightarrow> Recording \<Rightarrow> (NodeColor \<times> nat option \<times> nat option \<times> Recording) option" where
  "delete_no_left v z st =
     (let s = tree st; x = right (heap s z); xParent = parent (heap s z) in
      recordCompact (ReplacedByRight v) (\<lambda>s. [Some z, right (heap s z), parent (heap s z)])
        (on_tree (transplant z (right (heap s z))) st) \<bind> (\<lambda>st1.
      Some (color (heap s z), x, xParent, st1)))"

definition delete_no_right ::
  "int \<Rightarrow> nat \<Rightarrow> Recording \<Rightarrow> (NodeColor \<times> nat option \<times> nat option \<times> Recording) option" where
  "delete_no_right v z st =
     (let s = tree st; x = left (heap s z); xParent = parent (heap s z) in
      recordCompact (ReplacedByLeft v) (\<lambda>s. [Some z, left (heap s z), parent (heap s z)])
        (on_tree (transplant z (left (heap s z))) st) \<bind> (\<lambda>st1.
      Some (color (heap s z), x, xParent, st1)))"

text \<open>
  The target has two children and \<open>y\<close> is the minimum of its right subtree. First \<open>y\<close>
  is detached, unless it is the right child of \<open>z\<close> itself; the result is \<open>xParent\<close>.
\<close>

definition detachSuccessor ::
  "nat \<Rightarrow> nat \<Rightarrow> Recording \<Rightarrow> (nat option \<times> Recording) option" where
  "detachSuccessor z y st =
     (let s = tree st; x = right (heap s y) in
      if parent (heap s y) = Some z
      then Some (Some y,
             (case x of None \<Rightarrow> st | Some xa \<Rightarrow> on_tree (set_parent xa (Some y)) st))
      else recordCompact (PulledUp (nvalue (heap s y)))
             (\<lambda>s. [Some y, right (heap s y), parent (heap s y)])
             (on_tree (transplant y (right (heap s y))) st) \<bind> (\<lambda>st1.
           let st2 = on_tree (\<lambda>s. set_right y (right (heap s z)) s) st1;
               st3 = (case right (heap (tree st2) y) of
                        None \<Rightarrow> st2
                      | Some yr \<Rightarrow> on_tree (set_parent yr (Some y)) st2)
           in Some (parent (heap s y), st3)))"

text \<open>Then \<open>y\<close> is put in the place of \<open>z\<close> and takes its left subtree and its color.\<close>

definition substituteSuccessor :: "int \<Rightarrow> nat \<Rightarrow> nat \<Rightarrow> Recording \<Rightarrow> Recording option" where
  "substituteSuccessor v z y st4 =
     (let st5 = on_tree (transplant z (Some y)) st4;
          st6 = on_tree (\<lambda>s. set_left y (left (heap s z)) s) st5;
          st7 = (case left (heap (tree st6) y) of
                   None \<Rightarrow> st6
                 | Some yl \<Rightarrow> on_tree (set_parent yl (Some y)) st6);
          st8 = on_tree (\<lambda>s. set_color y (color (heap s z)) s) st7
      in recordCompact (Substituted v (nvalue (heap (tree st8) y)))
           (\<lambda>s. [Some y, left (heap s y), right (heap s y)]) st8)"

definition delete_two_children ::
  "int \<Rightarrow> nat \<Rightarrow> nat \<Rightarrow> Recording \<Rightarrow> (NodeColor \<times> nat option \<times> nat option \<times> Recording) option" where
  "delete_two_children v z zr st =
     minimum (tree st) zr \<bind> (\<lambda>y.
       let s = tree st; yOriginalColor = color (heap s y); x = right (heap s y) in
       detachSuccessor z y st \<bind> (\<lambda>(xParent, st4).
       substituteSuccessor v z y st4 \<bind> (\<lambda>st9.
       Some (yOriginalColor, x, xParent, st9))))"

definition delete_close :: "Recording \<Rightarrow> Recording option" where
  "delete_close st =
     (case root (tree st) of
        Some r \<Rightarrow>
          recordSnapshot KeepRootBlack [nid (heap (tree st) r)] (on_tree (set_color r black) st)
      | None \<Rightarrow> recordSnapshot TreeIsEmpty [] st)"

definition rb_delete :: "int \<Rightarrow> RedBlackTree \<Rightarrow> (RedBlackTree \<times> OperationRecord) option" where
  "rb_delete v s =
     startRecording s \<bind> (\<lambda>st0.
     rb_find s v \<bind> (\<lambda>target.
     case target of
       None \<Rightarrow>
         recordSnapshot (NotFound v) [] st0 \<bind> (\<lambda>st1.
         Some (tree st1, \<lparr> label = DeleteCancelled v, snapshots = snaps st1 \<rparr>))
     | Some z \<Rightarrow>
         recordSnapshot (DeletingNode v) [nid (heap s z)] st0 \<bind> (\<lambda>st1.
         (case left (heap (tree st1) z) of
            None \<Rightarrow> delete_no_left v z st1
          | Some zl \<Rightarrow>
              (case right (heap (tree st1) z) of
                 None \<Rightarrow> delete_no_right v z st1
               | Some zr \<Rightarrow> delete_two_children v z zr st1)) \<bind>
         (\<lambda>(yOriginalColor, x, xParent, st2).
         (if yOriginalColor = black then fixDelete x xParent st2 else Some st2) \<bind> (\<lambda>st3.
         delete_close st3 \<bind> (\<lambda>st4.
         Some (tree st4, \<lparr> label = Deleted v, snapshots = snaps st4 \<rparr>)))))))"


section \<open>Sequences of operations\<close>

datatype Operation = Insert int | Delete int

definition perform :: "Operation \<Rightarrow> RedBlackTree \<Rightarrow> (RedBlackTree \<times> OperationRecord) option" where
  "perform oper s = (case oper of Insert v \<Rightarrow> rb_insert v s | Delete v \<Rightarrow> rb_delete v s)"

text \<open>The tree after a sequence of calls, each made on the tree the previous one left.\<close>

fun run :: "Operation list \<Rightarrow> RedBlackTree \<Rightarrow> RedBlackTree option" where
  "run [] s = Some s"
| "run (oper # ops) s = map_option fst (perform oper s) \<bind> run ops"

section \<open>Observations used by the properties\<close>

text \<open>The values of the tree in in-order: left subtree, node, right subtree.\<close>

partial_function (option) inorder_from :: "RedBlackTree \<Rightarrow> nat option \<Rightarrow> int list option" where
  "inorder_from s node =
     (case node of
        None \<Rightarrow> Some []
      | Some a \<Rightarrow>
          inorder_from s (left (heap s a)) \<bind> (\<lambda>ls.
          inorder_from s (right (heap s a)) \<bind> (\<lambda>rs.
          Some (ls @ nvalue (heap s a) # rs))))"

declare inorder_from.simps [code]

definition inorderValues :: "RedBlackTree \<Rightarrow> int list option" where
  "inorderValues s = inorder_from s (root s)"

text \<open>
  The number of black nodes on each path from a node down to an absent child, one
  entry per path, leftmost path first.
\<close>

partial_function (option) blackCounts :: "RedBlackTree \<Rightarrow> nat option \<Rightarrow> nat list option" where
  "blackCounts s node =
     (case node of
        None \<Rightarrow> Some [0]
      | Some a \<Rightarrow>
          blackCounts s (left (heap s a)) \<bind> (\<lambda>ls.
          blackCounts s (right (heap s a)) \<bind> (\<lambda>rs.
          Some (map (\<lambda>n. n + (if color (heap s a) = black then 1 else 0)) (ls @ rs)))))"

declare blackCounts.simps [code]

definition rootBlackCounts :: "RedBlackTree \<Rightarrow> nat list option" where
  "rootBlackCounts s = blackCounts s (root s)"


section \<open>The tree a store represents\<close>

text \<open>
  \<open>heap_tree s par p t\<close>: following \<open>left\<close> and \<open>right\<close> from the reference \<open>p\<close>
  spells out the tree \<open>t\<close> of references, and every node of it points back to its
  parent (\<open>par\<close> for the topmost one). A store is well formed when its root spells out
  a tree without repeated references.
\<close>

fun heap_tree :: "RedBlackTree \<Rightarrow> nat option \<Rightarrow> nat option \<Rightarrow> nat tree \<Rightarrow> bool" where
  "heap_tree s par p Leaf \<longleftrightarrow> p = None"
| "heap_tree s par p (Node l a r) \<longleftrightarrow>
     p = Some a \<and> parent (heap s a) = par \<and>
     heap_tree s (Some a) (left (heap s a)) l \<and>
     heap_tree s (Some a) (right (heap s a)) r"

definition wf_tree :: "RedBlackTree \<Rightarrow> nat tree \<Rightarrow> bool" where
  "wf_tree s t \<longleftrightarrow> heap_tree s None (root s) t \<and> distinct (preorder t)"

text \<open>Every node of the tree was created by \<open>insert\<close>: it carries the name of its reference.\<close>

definition named :: "RedBlackTree \<Rightarrow> nat tree \<Rightarrow> bool" where
  "named s t \<longleftrightarrow> (\<forall>a \<in> set_tree t. a < nodeCounter s \<and> nid (heap s a) = node_name a)"


text \<open>
  Positions in a tree of references: the subtree rooted at a reference, the tree with
  that subtree replaced, and the depth of a reference.
\<close>

fun sub :: "nat \<Rightarrow> nat tree \<Rightarrow> nat tree" where
  "sub x Leaf = Leaf"
| "sub x (Node l a r) =
     (if a = x then Node l a r else if x \<in> set_tree l then sub x l else sub x r)"

fun replace :: "nat \<Rightarrow> nat tree \<Rightarrow> nat tree \<Rightarrow> nat tree" where
  "replace x u Leaf = Leaf"
| "replace x u (Node l a r) =
     (if a = x then u else Node (replace x u l) a (replace x u r))"

fun depth :: "nat \<Rightarrow> nat tree \<Rightarrow> nat" where
  "depth x Leaf = 0"
| "depth x (Node l a r) =
     (if a = x then 0 else if x \<in> set_tree l then Suc (depth x l) else Suc (depth x r))"

text \<open>
  \<open>kept s s' x q b\<close>: from \<open>s\<close> to \<open>s'\<close> the node \<open>b\<close> keeps its links, except that a
  child link to \<open>x\<close> now holds \<open>q\<close>.
\<close>

definition kept :: "RedBlackTree \<Rightarrow> RedBlackTree \<Rightarrow> nat \<Rightarrow> nat option \<Rightarrow> nat \<Rightarrow> bool" where
  "kept s s' x q b \<longleftrightarrow>
     parent (heap s' b) = parent (heap s b)
     \<and> left (heap s' b) = (if left (heap s b) = Some x then q else left (heap s b))
     \<and> right (heap s' b) = (if right (heap s b) = Some x then q else right (heap s b))"

text \<open>
  What C10 asks of an exported node list: the ids are pairwise distinct, an id named as
  a left or right child belongs to a record of the list whose parent id is the naming
  record, and a non-empty list has exactly one record without a parent id.
\<close>

definition good_export :: "SerializedNode list \<Rightarrow> bool" where
  "good_export ns \<longleftrightarrow>
     distinct (map sid ns)
     \<and> (\<forall>n \<in> set ns. \<forall>i. leftId n = Some i \<or> rightId n = Some i \<longrightarrow>
           (\<exists>m \<in> set ns. sid m = i \<and> parentId m = Some (sid n)))
     \<and> (ns \<noteq> [] \<longrightarrow> length (filter (\<lambda>n. parentId n = None) ns) = 1)"

text \<open>
  The invariant of the tree between the steps of an operation, and of a running
  recording: the store is well formed, its nodes are named, and every snapshot taken
  so far exports a good node list.
\<close>

definition tree_inv :: "RedBlackTree \<Rightarrow> nat tree \<Rightarrow> bool" where
  "tree_inv s t \<longleftrightarrow> wf_tree s t \<and> named s t"

definition rec_inv :: "Recording \<Rightarrow> nat tree \<Rightarrow> bool" where
  "rec_inv st t \<longleftrightarrow> tree_inv (tree st) t \<and> (\<forall>sn \<in> set (snaps st). good_export (nodes sn))"

text \<open>
  What one run of the insert-fixup loop body establishes, started on the tree \<open>t\<close>
  with the focus \<open>node\<close>: it leaves the loop with the invariant, or it goes round again
  with a focus that is less deep.
\<close>

fun insert_post :: "nat tree \<Rightarrow> nat \<Rightarrow> InsertLoop \<Rightarrow> bool" where
  "insert_post t node (InsertBreak st') \<longleftrightarrow> rec_inv st' t"
| "insert_post t node (InsertAgain node' st') \<longleftrightarrow>
     (\<exists>t'. rec_inv st' t' \<and> set_tree t' = set_tree t \<and> node' \<in> set_tree t' \<and>
           depth node' t' < depth node t)"

text \<open>
  The delete-fixup loop works on a position of the tree: \<open>current\<close>, which may be
  null, and \<open>currentParent\<close>. A non-null \<open>current\<close> is a node of the tree whose parent
  is \<open>currentParent\<close>; a null \<open>current\<close> hangs below a node of the tree, or the tree
  is empty. The depth of the position is the depth \<open>current\<close> has or would have.
\<close>

definition fix_position :: "RedBlackTree \<Rightarrow> nat tree \<Rightarrow> nat option \<Rightarrow> nat option \<Rightarrow> bool" where
  "fix_position s t current currentParent \<longleftrightarrow>
     (case current of
        Some c \<Rightarrow> c \<in> set_tree t \<and> parent (heap s c) = currentParent
      | None \<Rightarrow> (case currentParent of Some cp \<Rightarrow> cp \<in> set_tree t | None \<Rightarrow> t = Leaf))"

definition position_depth :: "nat tree \<Rightarrow> nat option \<Rightarrow> nat option \<Rightarrow> nat" where
  "position_depth t current currentParent =
     (case current of
        Some c \<Rightarrow> depth c t
      | None \<Rightarrow> (case currentParent of Some cp \<Rightarrow> Suc (depth cp t) | None \<Rightarrow> 0))"

text \<open>
  The quantity that decreases from one round of the delete-fixup loop to the next, and
  what one round establishes when it was started with the measure \<open>m\<close>: it leaves the
  loop with the invariant, or it goes round again on a position with a smaller measure.
\<close>

definition fix_measure :: "RedBlackTree \<Rightarrow> nat tree \<Rightarrow> nat option \<Rightarrow> nat option \<Rightarrow> nat" where
  "fix_measure s t current currentParent =
     2 * position_depth t current currentParent + (if isBlack s current then 1 else 0)"

fun delete_post :: "nat \<Rightarrow> DeleteLoop \<Rightarrow> bool" where
  "delete_post m (DeleteBreak c st') \<longleftrightarrow> (\<exists>t'. rec_inv st' t')"
| "delete_post m (DeleteAgain c cp st') \<longleftrightarrow>
     (\<exists>t'. rec_inv st' t' \<and> fix_position (tree st') t' c cp \<and>
           fix_measure (tree st') t' c cp < m)"

text \<open>The tree that insert(10), insert(5), insert(15) build from the empty tree.\<close>

definition exampleTree :: RedBlackTree where
  "exampleTree =
     \<lparr> root = Some 0, nodeCounter = 3,
       heap = (heap emptyTree)
         (0 := \<lparr> nid = node_name 0, nvalue = 10, color = black,
                 left = Some 1, right = Some 2, parent = None \<rparr>,
          1 := \<lparr> nid = node_name 1, nvalue = 5, color = red,
                 left = None, right = None, parent = Some 0 \<rparr>,
          2 := \<lparr> nid = node_name 2, nvalue = 15, color = red,
                 left = None, right = None, parent = Some 0 \<rparr>) \<rparr>"

text \<open>The snapshot list of a recording is an append-only log.\<close>

definition grows :: "Recording \<Rightarrow> Recording \<Rightarrow> bool" where
  "grows st st' \<longleftrightarrow> (\<exists>more. snaps st' = snaps st @ more)"

text \<open>The recording that the outcome of a loop body carries.\<close>

fun insertLoop_state :: "InsertLoop \<Rightarrow> Recording" where
  "insertLoop_state (InsertAgain n st) = st"
| "insertLoop_state (InsertBreak st) = st"

fun deleteLoop_state :: "DeleteLoop \<Rightarrow> Recording" where
  "deleteLoop_state (DeleteAgain c cp st) = st"
| "deleteLoop_state (DeleteBreak c st) = st"

section \<open>Node names\<close>

lemma digit_char_inj: "a < 10 \<Longrightarrow> b < 10 \<Longrightarrow> digit_char a = digit_char b \<longleftrightarrow> a = b"
  unfolding digit_char_def
  by (rule nth_eq_iff_index_eq) simp_all

lemma show_nat_nonempty: "show_nat n \<noteq> []"
  by (subst show_nat.simps) simp

lemma show_nat_inj: "show_nat a = show_nat b \<Longrightarrow> a = b"
proof (induction a arbitrary: b rule: less_induct)
  case (less a)
  show ?case
  proof (cases "a < 10")
    case a_small: True
    show ?thesis
    proof (cases "b < 10")
      case True
      with a_small less.prems show ?thesis
        by (simp add: show_nat.simps [of a] show_nat.simps [of b] digit_char_inj)
    next
      case False
      with a_small less.prems show_nat_nonempty [of "b div 10"] show ?thesis
        by (simp add: show_nat.simps [of a] show_nat.simps [of b])
    qed
  next
    case a_big: False
    show ?thesis
    proof (cases "b < 10")
      case True
      with a_big less.prems show_nat_nonempty [of "a div 10"] show ?thesis
        by (simp add: show_nat.simps [of a] show_nat.simps [of b])
    next
      case False
      with a_big less.prems
      have eq: "show_nat (a div 10) = show_nat (b div 10)"
        and dg: "digit_char (a mod 10) = digit_char (b mod 10)"
        by (simp_all add: show_nat.simps [of a] show_nat.simps [of b])
      from a_big have "a div 10 < a" by simp
      from less.IH [OF this eq] have d: "a div 10 = b div 10" .
      from dg have m: "a mod 10 = b mod 10" by (simp add: digit_char_inj)
      from d m show ?thesis by (metis div_mult_mod_eq)
    qed
  qed
qed

lemma node_name_inj [simp]: "node_name a = node_name b \<longleftrightarrow> a = b"
  by (auto simp: node_name_def dest: show_nat_inj)

lemma node_name_nonempty [simp]: "node_name a \<noteq> []"
  by (simp add: node_name_def)

lemma node_name_examples:
  "node_name 0 = ''node-0''" "node_name 7 = ''node-7''" "node_name 12 = ''node-12''"
  by (simp_all add: node_name_def show_nat.simps digit_char_def)

section \<open>Running the operations on concrete trees\<close>

text \<open>
  The unfolding rules that evaluate an operation on a concrete tree. The bind of the
  option monad is evaluated left to right.
\<close>

lemma bind_weak_cong: "m = m' \<Longrightarrow> Option.bind m f = Option.bind m' f"
  by simp

lemmas eval_simps =
  perform_def rb_insert_def rb_delete_def startRecording_def recordSnapshot_def
  recordCompact_def serializeTree_def traverse.simps find_from.simps rb_find_def
  descend.simps minimum.simps fixInsert.simps fixDelete_loop.simps
  fixInsert_body_def fixInsert_recolor_def fixInsert_rotate_left_side_def
  fixInsert_rotate_right_side_def attach_def blackenRoot_def newNode_def emptyTree_def
  on_tree_def set_color_def set_left_def set_right_def set_parent_def
  rotateLeft_def rotateRight_def transplant_def id_of_def export_node_def
  diffSnapshots_def js_map_get_def compact_def is_red_def isBlack_def
  opt_left_def opt_right_def opt_parent_def
  fixDelete_def fixDelete_body_def fixDelete_left_def fixDelete_right_def
  fixDelete_red_sibling_left_def fixDelete_red_sibling_right_def
  fixDelete_far_black_left_def fixDelete_far_black_right_def
  fixDelete_final_left_def fixDelete_final_right_def
  delete_no_left_def delete_no_right_def delete_two_children_def detachSuccessor_def
  substituteSuccessor_def delete_close_def
  inorderValues_def inorder_from.simps rootBlackCounts_def blackCounts.simps
  Let_def

section \<open>Well-formed stores\<close>

lemma heap_tree_frame:
  "heap_tree s par p t \<Longrightarrow>
   (\<And>a. a \<in> set_tree t \<Longrightarrow> left (heap s' a) = left (heap s a) \<and>
        right (heap s' a) = right (heap s a) \<and> parent (heap s' a) = parent (heap s a)) \<Longrightarrow>
   heap_tree s' par p t"
  by (induction t arbitrary: par p) auto

lemma heap_tree_fun: "heap_tree s par p t \<Longrightarrow> heap_tree s par' p t' \<Longrightarrow> t = t'"
proof (induction t arbitrary: par par' p t')
  case Leaf
  then show ?case by (cases t') auto
next
  case (Node l a r)
  then show ?case by (cases t') auto
qed

lemma traverse_heap_tree:
  "heap_tree s par p t \<Longrightarrow> traverse s p acc = Some (acc @ map (export_node s) (preorder t))"
proof (induction t arbitrary: par p acc)
  case Leaf
  then show ?case by (simp add: traverse.simps)
next
  case (Node l a r)
  from Node.prems have p: "p = Some a"
    and l: "heap_tree s (Some a) (left (heap s a)) l"
    and r: "heap_tree s (Some a) (right (heap s a)) r" by simp_all
  show ?case
    by (subst traverse.simps) (simp add: p Node.IH(1) [OF l] Node.IH(2) [OF r])
qed

lemma serializeTree_wf:
  "wf_tree s t \<Longrightarrow> serializeTree s = Some (map (export_node s) (preorder t))"
  using traverse_heap_tree [of s None "root s" t "[]"]
  by (simp add: wf_tree_def serializeTree_def)

lemma inorder_from_heap_tree:
  "heap_tree s par p t \<Longrightarrow> inorder_from s p = Some (map (\<lambda>a. nvalue (heap s a)) (inorder t))"
proof (induction t arbitrary: par p)
  case Leaf
  then show ?case by (simp add: inorder_from.simps)
next
  case (Node l a r)
  from Node.prems have p: "p = Some a"
    and l: "heap_tree s (Some a) (left (heap s a)) l"
    and r: "heap_tree s (Some a) (right (heap s a)) r" by simp_all
  show ?case
    by (subst inorder_from.simps) (simp add: p Node.IH(1) [OF l] Node.IH(2) [OF r])
qed

lemma find_from_heap_tree:
  "heap_tree s par p t \<Longrightarrow>
   \<exists>res. find_from s v p = Some res \<and>
     (case res of None \<Rightarrow> True | Some e \<Rightarrow> e \<in> set_tree t \<and> nvalue (heap s e) = v)"
proof (induction t arbitrary: par p)
  case Leaf
  then show ?case by (simp add: find_from.simps)
next
  case (Node l a r)
  from Node.prems have p: "p = Some a"
    and l: "heap_tree s (Some a) (left (heap s a)) l"
    and r: "heap_tree s (Some a) (right (heap s a)) r" by simp_all
  from Node.IH(1) [OF l] Node.IH(2) [OF r] show ?case
    by (subst find_from.simps) (auto simp: p split: option.splits)
qed

lemma find_from_absent:
  assumes "heap_tree s par p t" and "v \<notin> (\<lambda>a. nvalue (heap s a)) ` set_tree t"
  shows "find_from s v p = Some None"
proof -
  from find_from_heap_tree [OF assms(1), of v] obtain res where
    res: "find_from s v p = Some res"
    "case res of None \<Rightarrow> True | Some e \<Rightarrow> e \<in> set_tree t \<and> nvalue (heap s e) = v" by blast
  with assms(2) show ?thesis by (cases res) auto
qed



lemma subtree_preorder:
  "u \<in> subtrees t \<Longrightarrow> \<exists>before after. preorder t = before @ preorder u @ after"
proof (induction t)
  case Leaf
  then show ?case by simp
next
  case (Node l a r)
  from Node.prems consider "u = Node l a r" | "u \<in> subtrees l" | "u \<in> subtrees r" by auto
  then show ?case
  proof cases
    case 1
    then have "preorder (Node l a r) = [] @ preorder u @ []" by simp
    then show ?thesis by blast
  next
    case 2
    from Node.IH(1) [OF 2] obtain before after where "preorder l = before @ preorder u @ after"
      by blast
    then have "preorder (Node l a r) = (a # before) @ preorder u @ (after @ preorder r)" by simp
    then show ?thesis by blast
  next
    case 3
    from Node.IH(2) [OF 3] obtain before after where "preorder r = before @ preorder u @ after"
      by blast
    then have "preorder (Node l a r) = (a # preorder l @ before) @ preorder u @ after" by simp
    then show ?thesis by blast
  qed
qed

text \<open>
  C4, as the code behaves. On every well-formed store the serializer exports the nodes
  in pre-order: a node comes first, then all nodes of its left subtree, then all nodes of
  its right subtree. (The claim says in-order, with the left subtree before the node.)
\<close>

theorem C4_serializer_preorder:
  assumes "wf_tree s t"
  shows "serializeTree s = Some (map (export_node s) (preorder t))
    \<and> (\<forall>l a r. Node l a r \<in> subtrees t \<longrightarrow>
          (\<exists>before after. preorder t = before @ a # preorder l @ preorder r @ after))"
proof (intro conjI allI impI)
  show "serializeTree s = Some (map (export_node s) (preorder t))"
    using assms by (rule serializeTree_wf)
next
  fix l a r assume "Node l a r \<in> subtrees t"
  from subtree_preorder [OF this]
  show "\<exists>before after. preorder t = before @ a # preorder l @ preorder r @ after" by simp
qed

lemma rb_find_wf:
  assumes "wf_tree s t"
  shows "\<exists>res. rb_find s v = Some res \<and>
     (case res of None \<Rightarrow> True | Some e \<Rightarrow> e \<in> set_tree t \<and> nvalue (heap s e) = v)"
  using find_from_heap_tree [of s None "root s" t v] assms
  by (simp add: rb_find_def wf_tree_def)


lemma rb_find_absent:
  assumes "wf_tree s t" "v \<notin> (\<lambda>a. nvalue (heap s a)) ` set_tree t"
  shows "rb_find s v = Some None"
  using find_from_absent [of s None "root s" t v] assms
  by (simp add: rb_find_def wf_tree_def)

lemma sid_export [simp]: "sid (export_node s a) = nid (heap s a)"
  by (simp add: export_node_def)


text \<open>
  C6. On every well-formed tree, deleting a value that no node carries returns the tree
  as it was (so its in-order values are unchanged), with a record labelled as a
  cancelled deletion that holds exactly one snapshot, the one reporting that no node was
  found.
\<close>

theorem C6_delete_absent:
  assumes wf: "wf_tree s t" and v: "v \<notin> (\<lambda>a. nvalue (heap s a)) ` set_tree t"
  shows "has s v = Some False
    \<and> (\<exists>s' snap. rb_delete v s =
            Some (s', \<lparr> label = DeleteCancelled v, snapshots = [snap] \<rparr>)
          \<and> s' = s
          \<and> inorderValues s' = inorderValues s
          \<and> inorderValues s = Some (map (\<lambda>a. nvalue (heap s a)) (inorder t))
          \<and> description snap = NotFound v
          \<and> highlightNodeIds snap = []
          \<and> serializeTree s = Some (nodes snap))"
proof -
  from rb_find_absent [OF wf v] have f: "rb_find s v = Some None" .
  from serializeTree_wf [OF wf]
  have ser: "serializeTree s = Some (map (export_node s) (preorder t))" .
  from wf have ino: "inorderValues s = Some (map (\<lambda>a. nvalue (heap s a)) (inorder t))"
    using inorder_from_heap_tree [of s None "root s" t]
    by (simp add: inorderValues_def wf_tree_def)
  from f have "has s v = Some False" by (simp add: has_def)
  moreover from f ser ino have "\<exists>s' snap. rb_delete v s =
            Some (s', \<lparr> label = DeleteCancelled v, snapshots = [snap] \<rparr>)
          \<and> s' = s
          \<and> inorderValues s' = inorderValues s
          \<and> inorderValues s = Some (map (\<lambda>a. nvalue (heap s a)) (inorder t))
          \<and> description snap = NotFound v
          \<and> highlightNodeIds snap = []
          \<and> serializeTree s = Some (nodes snap)"
    by (simp add: rb_delete_def startRecording_def recordSnapshot_def Let_def)
  ultimately show ?thesis by blast
qed

section \<open>The diff engine is correct\<close>

lemma js_map_get_Some:
  "js_map_get (map (\<lambda>n. (sid n, n)) xs) i = Some p \<Longrightarrow> p \<in> set xs \<and> sid p = i"
  unfolding js_map_get_def by (auto dest!: map_of_SomeD)

lemma js_map_get_None:
  "js_map_get (map (\<lambda>n. (sid n, n)) xs) i = None \<longleftrightarrow> i \<notin> sid ` set xs"
  unfolding js_map_get_def by (simp add: map_of_eq_None_iff image_image)

lemma js_map_get_None':
  "None = js_map_get (map (\<lambda>n. (sid n, n)) xs) i \<longleftrightarrow> i \<notin> sid ` set xs"
  using js_map_get_None [of xs i] by auto

lemma js_map_get_distinct:
  "distinct (map sid xs) \<Longrightarrow> p \<in> set xs \<Longrightarrow> js_map_get (map (\<lambda>n. (sid n, n)) xs) (sid p) = Some p"
  unfolding js_map_get_def
  by (rule map_of_is_SomeI) (auto simp: rev_map [symmetric] comp_def)


lemma added_iff:
  "e \<in> set (added (diffSnapshots previous current)) \<longleftrightarrow>
     (\<exists>n \<in> set current. js_map_get (map (\<lambda>n. (sid n, n)) previous) (sid n) = None
        \<and> e = (sid n, svalue n))"
proof -
  have "e \<in> set (case m of None \<Rightarrow> [x] | Some p \<Rightarrow> []) \<longleftrightarrow> m = None \<and> e = x"
    for m :: "SerializedNode option" and x
    by (cases m) auto
  then show ?thesis
    by (simp add: diffSnapshots_def Let_def)
qed

lemma removed_iff:
  "e \<in> set (removed (diffSnapshots previous current)) \<longleftrightarrow>
     (\<exists>n \<in> set previous. js_map_get (map (\<lambda>n. (sid n, n)) current) (sid n) = None
        \<and> e = (sid n, svalue n))"
  by (auto simp: diffSnapshots_def Let_def split: if_splits)

lemma recolored_iff:
  "e \<in> set (recolored (diffSnapshots previous current)) \<longleftrightarrow>
     (\<exists>n \<in> set current. \<exists>p. js_map_get (map (\<lambda>n. (sid n, n)) previous) (sid n) = Some p
        \<and> scolor p \<noteq> scolor n \<and> e = (sid n, svalue n, scolor p, scolor n))"
proof -
  have "e \<in> set (case m of None \<Rightarrow> [] | Some p \<Rightarrow> if c p then [x p] else []) \<longleftrightarrow>
          (\<exists>p. m = Some p \<and> c p \<and> e = x p)"
    for m :: "SerializedNode option" and c x
    by (cases m) auto
  then show ?thesis
    by (simp add: diffSnapshots_def Let_def)
qed

lemma moved_iff:
  "e \<in> set (moved (diffSnapshots previous current)) \<longleftrightarrow>
     (\<exists>n \<in> set current. \<exists>p. js_map_get (map (\<lambda>n. (sid n, n)) previous) (sid n) = Some p
        \<and> (parentId p \<noteq> parentId n \<or> leftId p \<noteq> leftId n \<or> rightId p \<noteq> rightId n)
        \<and> e = (sid n, svalue n))"
proof -
  have "e \<in> set (case m of None \<Rightarrow> [] | Some p \<Rightarrow> if c p then [x] else []) \<longleftrightarrow>
          (\<exists>p. m = Some p \<and> c p \<and> e = x)"
    for m :: "SerializedNode option" and c x
    by (cases m) auto
  then show ?thesis
    by (simp add: diffSnapshots_def Let_def)
qed

text \<open>
  C7. For every pair of node lists: an id in \<open>added\<close> occurs in \<open>current\<close> and not in
  \<open>previous\<close>; an id in \<open>removed\<close> occurs in \<open>previous\<close> and not in \<open>current\<close>; an id in
  \<open>recolored\<close> occurs in both with different colors; an id in \<open>moved\<close> occurs in both
  with a different parent, left or right id; and a node of \<open>current\<close> whose previous
  record (the one the id-keyed lookup finds, the only one when ids are distinct) differs
  in color and in a relation is in both \<open>recolored\<close> and \<open>moved\<close>.
\<close>

theorem C7_diff_sets:
  "(\<forall>e \<in> set (added (diffSnapshots previous current)).
       fst e \<in> sid ` set current \<and> fst e \<notin> sid ` set previous)
   \<and> (\<forall>e \<in> set (removed (diffSnapshots previous current)).
       fst e \<in> sid ` set previous \<and> fst e \<notin> sid ` set current)
   \<and> (\<forall>e \<in> set (recolored (diffSnapshots previous current)).
       \<exists>p \<in> set previous. \<exists>n \<in> set current.
         sid p = fst e \<and> sid n = fst e \<and> scolor p \<noteq> scolor n)
   \<and> (\<forall>e \<in> set (moved (diffSnapshots previous current)).
       \<exists>p \<in> set previous. \<exists>n \<in> set current.
         sid p = fst e \<and> sid n = fst e \<and>
         (parentId p \<noteq> parentId n \<or> leftId p \<noteq> leftId n \<or> rightId p \<noteq> rightId n))
   \<and> (\<forall>n \<in> set current. \<forall>p.
         js_map_get (map (\<lambda>n. (sid n, n)) previous) (sid n) = Some p \<longrightarrow>
         scolor p \<noteq> scolor n \<longrightarrow>
         (parentId p \<noteq> parentId n \<or> leftId p \<noteq> leftId n \<or> rightId p \<noteq> rightId n) \<longrightarrow>
         sid n \<in> fst ` set (recolored (diffSnapshots previous current)) \<and>
         sid n \<in> fst ` set (moved (diffSnapshots previous current)))
   \<and> (distinct (map sid previous) \<longrightarrow>
       (\<forall>n \<in> set current. \<forall>p \<in> set previous.
         sid p = sid n \<longrightarrow> scolor p \<noteq> scolor n \<longrightarrow>
         (parentId p \<noteq> parentId n \<or> leftId p \<noteq> leftId n \<or> rightId p \<noteq> rightId n) \<longrightarrow>
         sid n \<in> fst ` set (recolored (diffSnapshots previous current)) \<and>
         sid n \<in> fst ` set (moved (diffSnapshots previous current))))"
proof (intro conjI ballI allI impI)
  fix e assume "e \<in> set (added (diffSnapshots previous current))"
  then show "fst e \<in> sid ` set current" "fst e \<notin> sid ` set previous"
    by (auto simp: added_iff js_map_get_None)
next
  fix e assume "e \<in> set (removed (diffSnapshots previous current))"
  then show "fst e \<in> sid ` set previous" "fst e \<notin> sid ` set current"
    by (auto simp: removed_iff js_map_get_None)
next
  fix e assume "e \<in> set (recolored (diffSnapshots previous current))"
  then obtain n p where "n \<in> set current"
    "js_map_get (map (\<lambda>n. (sid n, n)) previous) (sid n) = Some p"
    "scolor p \<noteq> scolor n" "fst e = sid n"
    by (auto simp: recolored_iff)
  then show "\<exists>p \<in> set previous. \<exists>n \<in> set current.
         sid p = fst e \<and> sid n = fst e \<and> scolor p \<noteq> scolor n"
    by (metis js_map_get_Some)
next
  fix e assume "e \<in> set (moved (diffSnapshots previous current))"
  then obtain n p where "n \<in> set current"
    "js_map_get (map (\<lambda>n. (sid n, n)) previous) (sid n) = Some p"
    "parentId p \<noteq> parentId n \<or> leftId p \<noteq> leftId n \<or> rightId p \<noteq> rightId n"
    "fst e = sid n"
    by (auto simp: moved_iff)
  then show "\<exists>p \<in> set previous. \<exists>n \<in> set current.
         sid p = fst e \<and> sid n = fst e \<and>
         (parentId p \<noteq> parentId n \<or> leftId p \<noteq> leftId n \<or> rightId p \<noteq> rightId n)"
    by (metis js_map_get_Some)
next
  fix n p
  assume n: "n \<in> set current"
    and p: "js_map_get (map (\<lambda>n. (sid n, n)) previous) (sid n) = Some p"
    and c: "scolor p \<noteq> scolor n"
    and r: "parentId p \<noteq> parentId n \<or> leftId p \<noteq> leftId n \<or> rightId p \<noteq> rightId n"
  from n p c show "sid n \<in> fst ` set (recolored (diffSnapshots previous current))"
    by (force simp: recolored_iff)
  from n p r show "sid n \<in> fst ` set (moved (diffSnapshots previous current))"
    by (force simp: moved_iff)
next
  fix n p
  assume d: "distinct (map sid previous)" and n: "n \<in> set current" and pin: "p \<in> set previous"
    and eq: "sid p = sid n"
    and c: "scolor p \<noteq> scolor n"
    and r: "parentId p \<noteq> parentId n \<or> leftId p \<noteq> leftId n \<or> rightId p \<noteq> rightId n"
  from js_map_get_distinct [OF d pin] eq
  have p: "js_map_get (map (\<lambda>n. (sid n, n)) previous) (sid n) = Some p" by simp
  from n p c show "sid n \<in> fst ` set (recolored (diffSnapshots previous current))"
    by (force simp: recolored_iff)
  from n p r show "sid n \<in> fst ` set (moved (diffSnapshots previous current))"
    by (force simp: moved_iff)
qed

section \<open>The snapshot list only grows\<close>

lemma grows_refl [simp]: "grows st st"
  by (simp add: grows_def)

lemma grows_trans: "grows a b \<Longrightarrow> grows b c \<Longrightarrow> grows a c"
  by (auto simp: grows_def)

lemma snaps_on_tree [simp]: "snaps (on_tree f st) = snaps st"
  by (simp add: on_tree_def)

lemma previousNodes_on_tree [simp]: "previousNodes (on_tree f st) = previousNodes st"
  by (simp add: on_tree_def)

lemma tree_on_tree [simp]: "tree (on_tree f st) = f (tree st)"
  by (simp add: on_tree_def)

lemma grows_on_tree_left [simp]: "grows (on_tree f st) st' = grows st st'"
  by (simp add: grows_def on_tree_def)

lemma grows_on_tree_right [simp]: "grows st (on_tree f st') = grows st st'"
  by (simp add: grows_def on_tree_def)

lemma recordSnapshot_grows: "recordSnapshot d h st = Some st' \<Longrightarrow> grows st st'"
  by (auto simp: recordSnapshot_def grows_def Let_def bind_eq_Some_conv)

lemma recordCompact_grows: "recordCompact d f st = Some st' \<Longrightarrow> grows st st'"
  unfolding recordCompact_def by (rule recordSnapshot_grows)

lemma fixInsert_recolor_grows:
  "fixInsert_recolor p u g st = Some (InsertAgain n st') \<Longrightarrow> grows st st'"
  by (auto simp: fixInsert_recolor_def Let_def bind_eq_Some_conv dest!: recordSnapshot_grows)

lemma fixInsert_recolor_no_break: "fixInsert_recolor p u g st \<noteq> Some (InsertBreak st')"
  by (auto simp: fixInsert_recolor_def Let_def bind_eq_Some_conv)

lemma fixInsert_rotate_left_side_grows:
  "fixInsert_rotate_left_side node p g st = Some r \<Longrightarrow>
   \<exists>n st'. r = InsertAgain n st' \<and> grows st st'"
  by (auto simp: fixInsert_rotate_left_side_def Let_def bind_eq_Some_conv
      split: if_splits dest!: recordCompact_grows elim: grows_trans)

lemma fixInsert_rotate_right_side_grows:
  "fixInsert_rotate_right_side node p g st = Some r \<Longrightarrow>
   \<exists>n st'. r = InsertAgain n st' \<and> grows st st'"
  by (auto simp: fixInsert_rotate_right_side_def Let_def bind_eq_Some_conv
      split: if_splits dest!: recordCompact_grows elim: grows_trans)


lemma fixInsert_body_grows:
  "fixInsert_body node st = Some r \<Longrightarrow> grows st (insertLoop_state r)"
  by (cases r)
     (auto simp: fixInsert_body_def Let_def fixInsert_recolor_no_break
      split: option.splits if_splits
      dest!: fixInsert_recolor_grows fixInsert_rotate_left_side_grows
             fixInsert_rotate_right_side_grows)

lemma fixInsert_grows: "fixInsert node st = Some st' \<Longrightarrow> grows st st'"
proof (induction rule: fixInsert.raw_induct [rotated 1, consumes 1])
  case (1 fixInsert node st st')
  show ?case
  proof (cases "Some node \<noteq> root (tree st) \<and> is_red (tree st) (parent (heap (tree st) node))")
    case False
    with 1(2) show ?thesis by simp
  next
    case True
    with 1(2) obtain r where b: "fixInsert_body node st = Some r"
      and k: "(case r of InsertAgain n st1 \<Rightarrow> fixInsert n st1 | InsertBreak st1 \<Rightarrow> Some st1) = Some st'"
      by (auto simp: bind_eq_Some_conv)
    from fixInsert_body_grows [OF b] have g: "grows st (insertLoop_state r)" .
    show ?thesis
    proof (cases r)
      case (InsertAgain n st1)
      with k have "fixInsert n st1 = Some st'" by simp
      from 1(1) [OF this] g InsertAgain show ?thesis by (auto intro: grows_trans)
    next
      case (InsertBreak st1)
      with k g show ?thesis by simp
    qed
  qed
qed

lemma blackenRoot_grows: "blackenRoot st = Some st' \<Longrightarrow> grows st st'"
  by (auto simp: blackenRoot_def split: option.splits dest!: recordSnapshot_grows)

lemma attach_first:
  "attach v a par st = Some st' \<Longrightarrow> snaps st = [] \<Longrightarrow>
   \<exists>snap. snaps st' = [snap] \<and> changes snap = diffSnapshots (previousNodes st) (nodes snap)"
  by (auto simp: attach_def recordSnapshot_def Let_def bind_eq_Some_conv on_tree_def
      split: option.splits if_splits)


lemma fixDelete_red_sibling_left_grows:
  "fixDelete_red_sibling_left cp sb st = Some (sib, st') \<Longrightarrow> grows st st'"
  by (auto simp: fixDelete_red_sibling_left_def Let_def bind_eq_Some_conv
      split: if_splits option.splits dest!: recordCompact_grows elim: grows_trans)

lemma fixDelete_red_sibling_right_grows:
  "fixDelete_red_sibling_right cp sb st = Some (sib, st') \<Longrightarrow> grows st st'"
  by (auto simp: fixDelete_red_sibling_right_def Let_def bind_eq_Some_conv
      split: if_splits option.splits dest!: recordCompact_grows elim: grows_trans)

lemma fixDelete_far_black_left_grows:
  "fixDelete_far_black_left cp sib st = Some (sib', st') \<Longrightarrow> grows st st'"
  by (auto simp: fixDelete_far_black_left_def Let_def bind_eq_Some_conv
      split: if_splits option.splits dest!: recordCompact_grows elim: grows_trans)

lemma fixDelete_far_black_right_grows:
  "fixDelete_far_black_right cp sib st = Some (sib', st') \<Longrightarrow> grows st st'"
  by (auto simp: fixDelete_far_black_right_def Let_def bind_eq_Some_conv
      split: if_splits option.splits dest!: recordCompact_grows elim: grows_trans)

lemma fixDelete_final_left_grows:
  "fixDelete_final_left cp sib st = Some r \<Longrightarrow> grows st (deleteLoop_state r)"
  by (auto simp: fixDelete_final_left_def Let_def bind_eq_Some_conv
      split: if_splits option.splits dest!: recordCompact_grows elim: grows_trans)

lemma fixDelete_final_right_grows:
  "fixDelete_final_right cp sib st = Some r \<Longrightarrow> grows st (deleteLoop_state r)"
  by (auto simp: fixDelete_final_right_def Let_def bind_eq_Some_conv
      split: if_splits option.splits dest!: recordCompact_grows elim: grows_trans)

lemma fixDelete_left_grows:
  "fixDelete_left cp st = Some r \<Longrightarrow> grows st (deleteLoop_state r)"
  by (auto simp: fixDelete_left_def Let_def bind_eq_Some_conv
      split: if_splits option.splits
      dest!: recordCompact_grows fixDelete_red_sibling_left_grows
             fixDelete_far_black_left_grows fixDelete_final_left_grows
      elim: grows_trans)

lemma fixDelete_right_grows:
  "fixDelete_right cp st = Some r \<Longrightarrow> grows st (deleteLoop_state r)"
  by (auto simp: fixDelete_right_def Let_def bind_eq_Some_conv
      split: if_splits option.splits
      dest!: recordCompact_grows fixDelete_red_sibling_right_grows
             fixDelete_far_black_right_grows fixDelete_final_right_grows
      elim: grows_trans)

lemma fixDelete_body_grows:
  "fixDelete_body c cp st = Some r \<Longrightarrow> grows st (deleteLoop_state r)"
  by (auto simp: fixDelete_body_def split: if_splits
      dest: fixDelete_left_grows fixDelete_right_grows)

lemma fixDelete_loop_grows: "fixDelete_loop c cp st = Some (c', st') \<Longrightarrow> grows st st'"
proof (induction c cp st "(c', st')" rule: fixDelete_loop.raw_induct [rotated 1, consumes 1])
  case (1 fixDelete_loop c cp st)
  show ?case
  proof (cases "c \<noteq> root (tree st) \<and> isBlack (tree st) c")
    case False
    with 1(2) show ?thesis by simp
  next
    case True
    with 1(2) obtain r where b: "fixDelete_body c cp st = Some r"
      and k: "(case r of DeleteAgain c1 cp1 st1 \<Rightarrow> fixDelete_loop c1 cp1 st1
                | DeleteBreak c1 st1 \<Rightarrow> Some (c1, st1)) = Some (c', st')"
      by (auto simp: bind_eq_Some_conv)
    from fixDelete_body_grows [OF b] have g: "grows st (deleteLoop_state r)" .
    show ?thesis
    proof (cases r)
      case (DeleteAgain c1 cp1 st1)
      with k have "fixDelete_loop c1 cp1 st1 = Some (c', st')" by simp
      from 1(1) [OF this] g DeleteAgain show ?thesis by (auto intro: grows_trans)
    next
      case (DeleteBreak c1 st1)
      with k g show ?thesis by simp
    qed
  qed
qed

lemma fixDelete_grows:
  assumes "fixDelete x xp st = Some st'"
  shows "grows st st'"
proof -
  from assms obtain c st1 where l: "fixDelete_loop x xp st = Some (c, st1)"
    and k: "(case c of None \<Rightarrow> Some st1
             | Some a \<Rightarrow> recordSnapshot FinallyBlack [nid (heap (tree st1) a)]
                          (on_tree (set_color a black) st1)) = Some st'"
    by (auto simp: fixDelete_def bind_eq_Some_conv)
  from k have "grows st1 st'"
    by (auto split: option.splits dest!: recordSnapshot_grows)
  with fixDelete_loop_grows [OF l] show ?thesis by (rule grows_trans)
qed

lemma delete_no_left_grows:
  "delete_no_left v z st = Some (c, x, xp, st') \<Longrightarrow> grows st st'"
  by (auto simp: delete_no_left_def Let_def bind_eq_Some_conv dest!: recordCompact_grows)

lemma delete_no_right_grows:
  "delete_no_right v z st = Some (c, x, xp, st') \<Longrightarrow> grows st st'"
  by (auto simp: delete_no_right_def Let_def bind_eq_Some_conv dest!: recordCompact_grows)

lemma grows_case_on_tree [simp]:
  "grows (case x of None \<Rightarrow> st | Some y \<Rightarrow> on_tree (f y) st) st' = grows st st'"
  "grows st0 (case x of None \<Rightarrow> st | Some y \<Rightarrow> on_tree (f y) st) = grows st0 st"
  by (cases x; simp)+

lemma detachSuccessor_grows:
  "detachSuccessor z y st = Some (xp, st') \<Longrightarrow> grows st st'"
  by (auto simp: detachSuccessor_def Let_def bind_eq_Some_conv
      split: if_splits dest!: recordCompact_grows)

lemma substituteSuccessor_grows:
  "substituteSuccessor v z y st = Some st' \<Longrightarrow> grows st st'"
  by (auto simp: substituteSuccessor_def Let_def dest!: recordCompact_grows)

lemma delete_two_children_grows:
  assumes "delete_two_children v z zr st = Some (c, x, xp, st')"
  shows "grows st st'"
proof -
  from assms obtain y xp1 st4 where
    d: "detachSuccessor z y st = Some (xp1, st4)"
    and s: "substituteSuccessor v z y st4 = Some st'"
    by (auto simp: delete_two_children_def Let_def bind_eq_Some_conv)
  from detachSuccessor_grows [OF d] substituteSuccessor_grows [OF s]
  show ?thesis by (rule grows_trans)
qed

lemma delete_close_grows: "delete_close st = Some st' \<Longrightarrow> grows st st'"
  by (auto simp: delete_close_def split: option.splits dest!: recordSnapshot_grows)

lemma recordSnapshot_first:
  "recordSnapshot d h st = Some st' \<Longrightarrow> snaps st = [] \<Longrightarrow>
   \<exists>snap. snaps st' = [snap] \<and> changes snap = diffSnapshots (previousNodes st) (nodes snap)"
  by (auto simp: recordSnapshot_def Let_def bind_eq_Some_conv)

lemma grows_from_single:
  "grows st st' \<Longrightarrow> snaps st = [snap] \<Longrightarrow> \<exists>more. snaps st' = snap # more"
  by (auto simp: grows_def)

lemma diffSnapshots_from_empty:
  "diffSnapshots [] ns =
     \<lparr> added = map (\<lambda>n. (sid n, svalue n)) ns, removed = [], recolored = [], moved = [] \<rparr>"
  by (simp add: diffSnapshots_def js_map_get_def Let_def)

lemma rb_insert_first_diff:
  assumes "rb_insert v s = Some (s', r)"
  shows "\<exists>ns0 snap more. serializeTree s = Some ns0 \<and> snapshots r = snap # more
           \<and> changes snap = diffSnapshots ns0 (nodes snap)"
proof -
  from assms obtain ns0 existing where ser: "serializeTree s = Some ns0"
    and f: "rb_find s v = Some existing"
    by (auto simp: rb_insert_def startRecording_def bind_eq_Some_conv)
  let ?st0 = "\<lparr> tree = s, snaps = [], previousNodes = ns0 \<rparr>"
  show ?thesis
  proof (cases existing)
    case (Some e)
    with assms ser f obtain st1 where
      r1: "recordSnapshot (AlreadyInTree v) [nid (heap s e)] ?st0 = Some st1"
      and r: "snapshots r = snaps st1"
      by (auto simp: rb_insert_def startRecording_def bind_eq_Some_conv)
    from recordSnapshot_first [OF r1] r ser show ?thesis by auto
  next
    case None
    with assms ser f obtain par st2 st3 st4 where
      a: "attach v (nodeCounter s) par (on_tree (newNode v) ?st0) = Some st2"
      and fi: "fixInsert (nodeCounter s) st2 = Some st3"
      and b: "blackenRoot st3 = Some st4"
      and r: "snapshots r = snaps st4"
      by (auto simp: rb_insert_def startRecording_def bind_eq_Some_conv Let_def)
    from attach_first [OF a] obtain snap where s2: "snaps st2 = [snap]"
      and c: "changes snap = diffSnapshots ns0 (nodes snap)"
      by (auto simp: on_tree_def)
    from fixInsert_grows [OF fi] blackenRoot_grows [OF b] have "grows st2 st4"
      by (rule grows_trans)
    from grows_from_single [OF this s2] r ser c show ?thesis by auto
  qed
qed

lemma rb_delete_first_diff:
  assumes "rb_delete v s = Some (s', r)"
  shows "\<exists>ns0 snap more. serializeTree s = Some ns0 \<and> snapshots r = snap # more
           \<and> changes snap = diffSnapshots ns0 (nodes snap)"
proof -
  from assms obtain ns0 target where ser: "serializeTree s = Some ns0"
    and f: "rb_find s v = Some target"
    by (auto simp: rb_delete_def startRecording_def bind_eq_Some_conv)
  let ?st0 = "\<lparr> tree = s, snaps = [], previousNodes = ns0 \<rparr>"
  show ?thesis
  proof (cases target)
    case None
    with assms ser f obtain st1 where
      r1: "recordSnapshot (NotFound v) [] ?st0 = Some st1"
      and r: "snapshots r = snaps st1"
      by (auto simp: rb_delete_def startRecording_def bind_eq_Some_conv)
    from recordSnapshot_first [OF r1] r ser show ?thesis by auto
  next
    case (Some z)
    with assms ser f obtain st1 c x xp st2 st3 st4 where
      r1: "recordSnapshot (DeletingNode v) [nid (heap s z)] ?st0 = Some st1"
      and sp: "(case left (heap (tree st1) z) of
            None \<Rightarrow> delete_no_left v z st1
          | Some zl \<Rightarrow>
              (case right (heap (tree st1) z) of
                 None \<Rightarrow> delete_no_right v z st1
               | Some zr \<Rightarrow> delete_two_children v z zr st1)) = Some (c, x, xp, st2)"
      and fx: "(if c = black then fixDelete x xp st2 else Some st2) = Some st3"
      and cl: "delete_close st3 = Some st4"
      and r: "snapshots r = snaps st4"
      by (auto simp: rb_delete_def startRecording_def bind_eq_Some_conv)
    from recordSnapshot_first [OF r1] obtain snap where s1: "snaps st1 = [snap]"
      and ch: "changes snap = diffSnapshots ns0 (nodes snap)" by auto
    from sp have g12: "grows st1 st2"
      by (auto split: option.splits
          dest: delete_no_left_grows delete_no_right_grows delete_two_children_grows)
    from fx have g23: "grows st2 st3"
      by (auto split: if_splits dest: fixDelete_grows)
    from g12 g23 delete_close_grows [OF cl] have "grows st1 st4"
      by (blast intro: grows_trans)
    from grows_from_single [OF this s1] r ser ch show ?thesis by auto
  qed
qed

text \<open>
  The result of an operation, when there is one: the diff of its first snapshot is
  computed against the nodes exported from the tree as the operation found it.
\<close>

lemma first_diff_of_result:
  assumes "perform oper s = Some (s', r)"
  shows "\<exists>ns0 snap more. serializeTree s = Some ns0 \<and> snapshots r = snap # more
           \<and> changes snap = diffSnapshots ns0 (nodes snap)
           \<and> (ns0 = [] \<longrightarrow>
                added (changes snap) = map (\<lambda>n. (sid n, svalue n)) (nodes snap)
                \<and> removed (changes snap) = [] \<and> recolored (changes snap) = []
                \<and> moved (changes snap) = [])"
proof -
  from assms have "\<exists>ns0 snap more. serializeTree s = Some ns0 \<and> snapshots r = snap # more
           \<and> changes snap = diffSnapshots ns0 (nodes snap)"
    by (cases oper) (auto simp: perform_def dest: rb_insert_first_diff rb_delete_first_diff)
  then obtain ns0 snap more where *: "serializeTree s = Some ns0" "snapshots r = snap # more"
    "changes snap = diffSnapshots ns0 (nodes snap)" by blast
  then show ?thesis by (auto simp: diffSnapshots_from_empty)
qed

section \<open>A concrete well-formed tree\<close>

lemma exampleTree_reached: "run [Insert 10, Insert 5, Insert 15] emptyTree = Some exampleTree"
  by (simp add: eval_simps exampleTree_def cong: bind_weak_cong) (auto simp: fun_eq_iff)

lemma exampleTree_wf: "wf_tree exampleTree \<langle>\<langle>\<langle>\<rangle>, 1, \<langle>\<rangle>\<rangle>, 0, \<langle>\<langle>\<rangle>, 2, \<langle>\<rangle>\<rangle>\<rangle>"
  by (simp add: wf_tree_def exampleTree_def)


theorem C4_serializer_preorder_witness:
  "wf_tree exampleTree \<langle>\<langle>\<langle>\<rangle>, 1, \<langle>\<rangle>\<rangle>, 0, \<langle>\<langle>\<rangle>, 2, \<langle>\<rangle>\<rangle>\<rangle>
   \<and> serializeTree exampleTree = Some (map (export_node exampleTree) [0, 1, 2])
   \<and> \<langle>\<langle>\<langle>\<rangle>, 1, \<langle>\<rangle>\<rangle>, 0, \<langle>\<langle>\<rangle>, 2, \<langle>\<rangle>\<rangle>\<rangle> \<in> subtrees \<langle>\<langle>\<langle>\<rangle>, 1, \<langle>\<rangle>\<rangle>, 0, \<langle>\<langle>\<rangle>, 2, \<langle>\<rangle>\<rangle>\<rangle>
   \<and> (\<exists>before after. preorder \<langle>\<langle>\<langle>\<rangle>, 1, \<langle>\<rangle>\<rangle>, 0, \<langle>\<langle>\<rangle>, 2, \<langle>\<rangle>\<rangle>\<rangle> =
         before @ (0::nat) # preorder \<langle>\<langle>\<rangle>, 1, \<langle>\<rangle>\<rangle> @ preorder \<langle>\<langle>\<rangle>, 2, \<langle>\<rangle>\<rangle> @ after)"
  using C4_serializer_preorder [OF exampleTree_wf] exampleTree_wf
  by simp


theorem C6_delete_absent_witness:
  "wf_tree exampleTree \<langle>\<langle>\<langle>\<rangle>, 1, \<langle>\<rangle>\<rangle>, 0, \<langle>\<langle>\<rangle>, 2, \<langle>\<rangle>\<rangle>\<rangle>
   \<and> 7 \<notin> (\<lambda>a. nvalue (heap exampleTree a)) ` set_tree \<langle>\<langle>\<langle>\<rangle>, 1, \<langle>\<rangle>\<rangle>, 0, \<langle>\<langle>\<rangle>, 2, \<langle>\<rangle>\<rangle>\<rangle>
   \<and> has exampleTree 7 = Some False
   \<and> (\<exists>snap. rb_delete 7 exampleTree =
          Some (exampleTree, \<lparr> label = DeleteCancelled 7, snapshots = [snap] \<rparr>)
        \<and> description snap = NotFound 7)
   \<and> inorderValues exampleTree = Some [5, 10, 15]"
proof -
  have v: "7 \<notin> (\<lambda>a. nvalue (heap exampleTree a)) ` set_tree \<langle>\<langle>\<langle>\<rangle>, 1, \<langle>\<rangle>\<rangle>, 0, \<langle>\<langle>\<rangle>, 2, \<langle>\<rangle>\<rangle>\<rangle>"
    by (simp add: exampleTree_def)
  have i: "map (\<lambda>a. nvalue (heap exampleTree a)) (inorder \<langle>\<langle>\<langle>\<rangle>, 1, \<langle>\<rangle>\<rangle>, 0, \<langle>\<langle>\<rangle>, 2, \<langle>\<rangle>\<rangle>\<rangle>) = [5, 10, 15]"
    by (simp add: exampleTree_def)
  from C6_delete_absent [OF exampleTree_wf v] v i exampleTree_wf
  show ?thesis by auto
qed

theorem C7_diff_sets_witness:
  "diffSnapshots
     [\<lparr> sid = ''a'', svalue = 1, scolor = red, parentId = None, leftId = None,
        rightId = Some ''b'' \<rparr>,
      \<lparr> sid = ''b'', svalue = 2, scolor = red, parentId = Some ''a'', leftId = None,
        rightId = None \<rparr>]
     [\<lparr> sid = ''c'', svalue = 3, scolor = red, parentId = Some ''a'', leftId = None,
        rightId = None \<rparr>,
      \<lparr> sid = ''a'', svalue = 1, scolor = black, parentId = None, leftId = Some ''c'',
        rightId = None \<rparr>] =
   \<lparr> added = [(''c'', 3)], removed = [(''b'', 2)],
     recolored = [(''a'', 1, red, black)], moved = [(''a'', 1)] \<rparr>"
  using C7_diff_sets [of
     "[\<lparr> sid = ''a'', svalue = 1, scolor = red, parentId = None, leftId = None,
        rightId = Some ''b'' \<rparr>,
      \<lparr> sid = ''b'', svalue = 2, scolor = red, parentId = Some ''a'', leftId = None,
        rightId = None \<rparr>]"
     "[\<lparr> sid = ''c'', svalue = 3, scolor = red, parentId = Some ''a'', leftId = None,
        rightId = None \<rparr>,
      \<lparr> sid = ''a'', svalue = 1, scolor = black, parentId = None, leftId = Some ''c'',
        rightId = None \<rparr>]"]
  by (simp add: diffSnapshots_def js_map_get_def)

section \<open>Scenarios\<close>

text \<open>
  C2, as the code behaves. Inserting 10 into the empty tree records two snapshots, not
  one: the attachment, in which the only node (value 10) is still red, and the closing
  snapshot, in which the same node is black.
\<close>

theorem C2_insert_into_empty:
  "map_option snd (rb_insert 10 emptyTree) =
     Some \<lparr> label = Inserted 10,
            snapshots =
              [\<lparr> description = InsertedAsRoot 10,
                 nodes = [\<lparr> sid = node_name 0, svalue = 10, scolor = red,
                            parentId = None, leftId = None, rightId = None \<rparr>],
                 highlightNodeIds = [node_name 0],
                 changes = \<lparr> added = [(node_name 0, 10)], removed = [],
                             recolored = [], moved = [] \<rparr> \<rparr>,
               \<lparr> description = KeepRootBlack,
                 nodes = [\<lparr> sid = node_name 0, svalue = 10, scolor = black,
                            parentId = None, leftId = None, rightId = None \<rparr>],
                 highlightNodeIds = [node_name 0],
                 changes = \<lparr> added = [], removed = [],
                             recolored = [(node_name 0, 10, red, black)], moved = [] \<rparr> \<rparr>] \<rparr>"
  by (simp add: eval_simps cong: bind_weak_cong)

text \<open>C2 as stated fails: the record of that call holds two snapshots.\<close>

theorem C2_counterexample:
  "map_option (length \<circ> snapshots \<circ> snd) (rb_insert 10 emptyTree) = Some 2"
  by (simp add: eval_simps cong: bind_weak_cong)

text \<open>
  C8. After insert(10), insert(20), insert(30) on the empty tree the root is 20, black,
  and its children 10 and 30 are red; the record of the third insert holds a snapshot
  taken after the left rotation around 10.
\<close>

theorem C8_three_ascending_inserts:
  "run [Insert 10, Insert 20, Insert 30] emptyTree \<bind> serializeTree =
     Some [\<lparr> sid = node_name 1, svalue = 20, scolor = black, parentId = None,
              leftId = Some (node_name 0), rightId = Some (node_name 2) \<rparr>,
           \<lparr> sid = node_name 0, svalue = 10, scolor = red, parentId = Some (node_name 1),
              leftId = None, rightId = None \<rparr>,
           \<lparr> sid = node_name 2, svalue = 30, scolor = red, parentId = Some (node_name 1),
              leftId = None, rightId = None \<rparr>]
   \<and> map_option (map description \<circ> snapshots \<circ> snd)
         (run [Insert 10, Insert 20] emptyTree \<bind> rb_insert 30) =
       Some [InsertedAsRight 30 20, LeftRotation 10, KeepRootBlack]"
  by (simp add: eval_simps cong: bind_weak_cong)

text \<open>
  C9. After inserting 10, 5, 15, 3, 7, delete(10) finds two children. The first
  snapshot shows 10 as the black root with children 5 and 15; the second shows 15, the
  minimum of the right subtree, as the black root with 5 as its left child. The tree
  the call leaves has the in-order values 3, 5, 7, 15.
\<close>

theorem C9_delete_two_children:
  "map_option (take 2 \<circ> snapshots \<circ> snd)
     (run [Insert 10, Insert 5, Insert 15, Insert 3, Insert 7] emptyTree \<bind> rb_delete 10) =
     Some [\<lparr> description = DeletingNode 10,
              nodes =
                [\<lparr> sid = node_name 0, svalue = 10, scolor = black, parentId = None,
                   leftId = Some (node_name 1), rightId = Some (node_name 2) \<rparr>,
                 \<lparr> sid = node_name 1, svalue = 5, scolor = black,
                   parentId = Some (node_name 0),
                   leftId = Some (node_name 3), rightId = Some (node_name 4) \<rparr>,
                 \<lparr> sid = node_name 3, svalue = 3, scolor = red,
                   parentId = Some (node_name 1), leftId = None, rightId = None \<rparr>,
                 \<lparr> sid = node_name 4, svalue = 7, scolor = red,
                   parentId = Some (node_name 1), leftId = None, rightId = None \<rparr>,
                 \<lparr> sid = node_name 2, svalue = 15, scolor = black,
                   parentId = Some (node_name 0), leftId = None, rightId = None \<rparr>],
              highlightNodeIds = [node_name 0],
              changes = \<lparr> added = [], removed = [], recolored = [], moved = [] \<rparr> \<rparr>,
           \<lparr> description = Substituted 10 15,
              nodes =
                [\<lparr> sid = node_name 2, svalue = 15, scolor = black, parentId = None,
                   leftId = Some (node_name 1), rightId = None \<rparr>,
                 \<lparr> sid = node_name 1, svalue = 5, scolor = black,
                   parentId = Some (node_name 2),
                   leftId = Some (node_name 3), rightId = Some (node_name 4) \<rparr>,
                 \<lparr> sid = node_name 3, svalue = 3, scolor = red,
                   parentId = Some (node_name 1), leftId = None, rightId = None \<rparr>,
                 \<lparr> sid = node_name 4, svalue = 7, scolor = red,
                   parentId = Some (node_name 1), leftId = None, rightId = None \<rparr>],
              highlightNodeIds = [node_name 2, node_name 1],
              changes = \<lparr> added = [], removed = [(node_name 0, 10)], recolored = [],
                          moved = [(node_name 2, 15), (node_name 1, 5)] \<rparr> \<rparr>]
   \<and> run [Insert 10, Insert 5, Insert 15, Insert 3, Insert 7, Delete 10] emptyTree
         \<bind> inorderValues = Some [3, 5, 7, 15]"
  by (simp add: eval_simps cong: bind_weak_cong)

text \<open>
  C1 at insert(30), insert(10), insert(20). In the zig-zag case the fixup blackens the
  node held in \<open>parent\<close>, which the first rotation has moved below the new node. The
  tree that results has root 20 (black), left child 10 (black), right child 30 (red):
  the paths through 10 hold two black nodes, the paths through 30 hold one.
\<close>

theorem C1_black_height_broken:
  "run [Insert 30, Insert 10, Insert 20] emptyTree \<bind> serializeTree =
     Some [\<lparr> sid = node_name 2, svalue = 20, scolor = black, parentId = None,
              leftId = Some (node_name 1), rightId = Some (node_name 0) \<rparr>,
           \<lparr> sid = node_name 1, svalue = 10, scolor = black, parentId = Some (node_name 2),
              leftId = None, rightId = None \<rparr>,
           \<lparr> sid = node_name 0, svalue = 30, scolor = red, parentId = Some (node_name 2),
              leftId = None, rightId = None \<rparr>]
   \<and> run [Insert 30, Insert 10, Insert 20] emptyTree \<bind> rootBlackCounts = Some [2, 2, 1, 1]"
  by (simp add: eval_simps cong: bind_weak_cong)

text \<open>
  C3 as stated fails. The first snapshot of insert(20) on the tree holding 10 exports
  both nodes, yet only the new node is in \<open>added\<close>, and \<open>moved\<close> holds the old one.
\<close>

theorem C3_counterexample:
  "map_option (hd \<circ> snapshots \<circ> snd) (run [Insert 10] emptyTree \<bind> rb_insert 20) =
     Some \<lparr> description = InsertedAsRight 20 10,
            nodes =
              [\<lparr> sid = node_name 0, svalue = 10, scolor = black, parentId = None,
                 leftId = None, rightId = Some (node_name 1) \<rparr>,
               \<lparr> sid = node_name 1, svalue = 20, scolor = red, parentId = Some (node_name 0),
                 leftId = None, rightId = None \<rparr>],
            highlightNodeIds = [node_name 1, node_name 0],
            changes = \<lparr> added = [(node_name 1, 20)], removed = [], recolored = [],
                        moved = [(node_name 0, 10)] \<rparr> \<rparr>"
  by (simp add: eval_simps cong: bind_weak_cong)

text \<open>
  C4 as stated fails. In the tree holding 10 and 5, the node 5 is the left child of 10,
  and the serializer exports 10 first.
\<close>

theorem C4_counterexample:
  "run [Insert 10, Insert 5] emptyTree \<bind> serializeTree =
     Some [\<lparr> sid = node_name 0, svalue = 10, scolor = black, parentId = None,
              leftId = Some (node_name 1), rightId = None \<rparr>,
           \<lparr> sid = node_name 1, svalue = 5, scolor = red, parentId = Some (node_name 0),
              leftId = None, rightId = None \<rparr>]"
  by (simp add: eval_simps cong: bind_weak_cong)


section \<open>The invariant of every reachable tree\<close>

text \<open>
  Every operation keeps the store well formed and its nodes named, it returns, and every
  snapshot it records exports a good node list.
\<close>

subsection \<open>Nodes of a represented tree\<close>

lemma heap_tree_sub:
  "heap_tree s par p t \<Longrightarrow> a \<in> set_tree t \<Longrightarrow>
   heap_tree s (parent (heap s a)) (Some a) (sub a t)"
  by (induction t arbitrary: par p) auto

lemma sub_root: "a \<in> set_tree t \<Longrightarrow> \<exists>l r. sub a t = Node l a r"
  by (induction t) auto

lemma set_tree_sub: "set_tree (sub a t) \<subseteq> set_tree t"
  by (induction t) auto

lemma sub_subtrees: "sub a t \<in> subtrees t"
  by (induction t) auto

lemma distinct_sub: "distinct (preorder t) \<Longrightarrow> distinct (preorder (sub a t))"
  by (induction t) auto

lemma heap_tree_Some: "heap_tree s par (Some b) t \<Longrightarrow> b \<in> set_tree t"
  by (cases t) auto

lemma heap_tree_root_parent:
  "heap_tree s par p t \<Longrightarrow> a \<in> set_tree t \<Longrightarrow>
   (p = Some a \<and> parent (heap s a) = par) \<or>
   (\<exists>b \<in> set_tree t. parent (heap s a) = Some b \<and>
      (left (heap s b) = Some a \<or> right (heap s b) = Some a))"
proof (induction t arbitrary: par p)
  case Leaf
  then show ?case by simp
next
  case (Node l x r)
  from Node.prems(1) have p: "p = Some x" and px: "parent (heap s x) = par"
    and l: "heap_tree s (Some x) (left (heap s x)) l"
    and r: "heap_tree s (Some x) (right (heap s x)) r" by simp_all
  consider "a = x" | "a \<in> set_tree l" | "a \<in> set_tree r" using Node.prems(2) by auto
  then show ?case
  proof cases
    case 1
    with p px show ?thesis by simp
  next
    case 2
    from Node.IH(1) [OF l 2] show ?thesis by auto
  next
    case 3
    from Node.IH(2) [OF r 3] show ?thesis by auto
  qed
qed

lemma wf_parent:
  assumes "wf_tree s t" "a \<in> set_tree t"
  shows "(root s = Some a \<and> parent (heap s a) = None) \<or>
   (\<exists>b \<in> set_tree t. parent (heap s a) = Some b \<and>
      (left (heap s b) = Some a \<or> right (heap s b) = Some a))"
  using heap_tree_root_parent [of s None "root s" t a] assms by (simp add: wf_tree_def)

lemma wf_left_child:
  assumes "wf_tree s t" "a \<in> set_tree t" "left (heap s a) = Some b"
  shows "b \<in> set_tree t \<and> parent (heap s b) = Some a \<and> b \<noteq> a"
proof -
  from assms(1,2) have h: "heap_tree s (parent (heap s a)) (Some a) (sub a t)"
    by (auto simp: wf_tree_def intro: heap_tree_sub)
  from sub_root [OF assms(2)] obtain l r where su: "sub a t = Node l a r" by blast
  with h assms(3) have hl: "heap_tree s (Some a) (Some b) l" by simp
  then obtain ll lr where l: "l = Node ll b lr" by (cases l) auto
  with hl have pb: "parent (heap s b) = Some a" by simp
  from l su have "b \<in> set_tree (sub a t)" by simp
  with set_tree_sub have bt: "b \<in> set_tree t" by blast
  from assms(1) have "distinct (preorder (sub a t))" by (simp add: wf_tree_def distinct_sub)
  with su l have "b \<noteq> a" by auto
  with bt pb show ?thesis by simp
qed

lemma wf_right_child:
  assumes "wf_tree s t" "a \<in> set_tree t" "right (heap s a) = Some b"
  shows "b \<in> set_tree t \<and> parent (heap s b) = Some a \<and> b \<noteq> a"
proof -
  from assms(1,2) have h: "heap_tree s (parent (heap s a)) (Some a) (sub a t)"
    by (auto simp: wf_tree_def intro: heap_tree_sub)
  from sub_root [OF assms(2)] obtain l r where su: "sub a t = Node l a r" by blast
  with h assms(3) have hr: "heap_tree s (Some a) (Some b) r" by simp
  then obtain rl rr where r: "r = Node rl b rr" by (cases r) auto
  with hr have pb: "parent (heap s b) = Some a" by simp
  from r su have "b \<in> set_tree (sub a t)" by simp
  with set_tree_sub have bt: "b \<in> set_tree t" by blast
  from assms(1) have "distinct (preorder (sub a t))" by (simp add: wf_tree_def distinct_sub)
  with su r have "b \<noteq> a" by auto
  with bt pb show ?thesis by simp
qed

lemma wf_children_differ:
  assumes "wf_tree s t" "a \<in> set_tree t" "left (heap s a) = Some b"
  shows "right (heap s a) \<noteq> Some b"
proof
  assume rb: "right (heap s a) = Some b"
  from assms(1,2) have h: "heap_tree s (parent (heap s a)) (Some a) (sub a t)"
    by (auto simp: wf_tree_def intro: heap_tree_sub)
  from sub_root [OF assms(2)] obtain l r where su: "sub a t = Node l a r" by blast
  with h assms(3) rb have "heap_tree s (Some a) (Some b) l" "heap_tree s (Some a) (Some b) r"
    by simp_all
  then have "b \<in> set_tree l" "b \<in> set_tree r" by (auto dest: heap_tree_Some)
  moreover from assms(1) have "distinct (preorder (sub a t))"
    by (simp add: wf_tree_def distinct_sub)
  ultimately show False using su by auto
qed

subsection \<open>Depth\<close>

lemma heap_tree_depth:
  "heap_tree s par p t \<Longrightarrow> distinct (preorder t) \<Longrightarrow> a \<in> set_tree t \<Longrightarrow>
   (p = Some a \<and> depth a t = 0) \<or>
   (\<exists>b \<in> set_tree t. parent (heap s a) = Some b \<and> depth a t = Suc (depth b t))"
proof (induction t arbitrary: par p)
  case Leaf
  then show ?case by simp
next
  case (Node l x r)
  from Node.prems(1) have p: "p = Some x"
    and l: "heap_tree s (Some x) (left (heap s x)) l"
    and r: "heap_tree s (Some x) (right (heap s x)) r" by simp_all
  from Node.prems(2) have dl: "distinct (preorder l)" and dr: "distinct (preorder r)"
    and xl: "x \<notin> set_tree l" and xr: "x \<notin> set_tree r"
    and lr: "set_tree l \<inter> set_tree r = {}" by auto
  consider "a = x" | "a \<in> set_tree l" | "a \<in> set_tree r" using Node.prems(3) by auto
  then show ?case
  proof cases
    case 1
    with p show ?thesis by simp
  next
    case 2
    with xl have ax: "a \<noteq> x" by auto
    from Node.IH(1) [OF l dl 2] show ?thesis
    proof
      assume "left (heap s x) = Some a \<and> depth a l = 0"
      moreover from this l 2 have "parent (heap s a) = Some x" by (cases l) auto
      ultimately show ?thesis using ax 2 by simp
    next
      assume "\<exists>b\<in>set_tree l. parent (heap s a) = Some b \<and> depth a l = Suc (depth b l)"
      then obtain b where "b \<in> set_tree l" "parent (heap s a) = Some b"
        "depth a l = Suc (depth b l)" by blast
      with ax 2 xl show ?thesis by auto
    qed
  next
    case 3
    with xr have ax: "a \<noteq> x" by auto
    from 3 lr have al: "a \<notin> set_tree l" by auto
    from Node.IH(2) [OF r dr 3] show ?thesis
    proof
      assume "right (heap s x) = Some a \<and> depth a r = 0"
      moreover from this r 3 have "parent (heap s a) = Some x" by (cases r) auto
      ultimately show ?thesis using ax al by simp
    next
      assume "\<exists>b\<in>set_tree r. parent (heap s a) = Some b \<and> depth a r = Suc (depth b r)"
      then obtain b where b: "b \<in> set_tree r" "parent (heap s a) = Some b"
        "depth a r = Suc (depth b r)" by blast
      with lr have "b \<notin> set_tree l" by auto
      with b ax al xr show ?thesis by auto
    qed
  qed
qed

lemma wf_depth_parent:
  assumes "wf_tree s t" "a \<in> set_tree t" "parent (heap s a) = Some b"
  shows "b \<in> set_tree t \<and> depth a t = Suc (depth b t)"
proof -
  from assms(1) have h: "heap_tree s None (root s) t" and d: "distinct (preorder t)"
    by (simp_all add: wf_tree_def)
  from heap_tree_depth [OF h d assms(2)] show ?thesis
  proof
    assume "root s = Some a \<and> depth a t = 0"
    with h assms(2,3) show ?thesis by (cases t) auto
  next
    assume "\<exists>b\<in>set_tree t. parent (heap s a) = Some b \<and> depth a t = Suc (depth b t)"
    with assms(3) show ?thesis by auto
  qed
qed

lemma wf_root_iff:
  assumes "wf_tree s t" "a \<in> set_tree t"
  shows "root s = Some a \<longleftrightarrow> parent (heap s a) = None"
proof
  assume "root s = Some a"
  with assms show "parent (heap s a) = None" by (cases t) (auto simp: wf_tree_def)
next
  assume "parent (heap s a) = None"
  with wf_parent [OF assms] show "root s = Some a" by auto
qed

lemma wf_root_in: "wf_tree s t \<Longrightarrow> root s = Some a \<Longrightarrow> a \<in> set_tree t"
  by (cases t) (auto simp: wf_tree_def)

lemma wf_root_None: "wf_tree s t \<Longrightarrow> root s = None \<longleftrightarrow> t = Leaf"
  by (cases t) (auto simp: wf_tree_def)

subsection \<open>Replacing a subtree\<close>

lemma heap_tree_kept_outside:
  "heap_tree s par p t \<Longrightarrow> x \<notin> set_tree t \<Longrightarrow>
   (\<And>b. b \<in> set_tree t \<Longrightarrow> kept s s' x q b) \<Longrightarrow>
   heap_tree s' par p t"
proof (induction t arbitrary: par p)
  case Leaf
  then show ?case by simp
next
  case (Node l a r)
  from Node.prems(1) have p: "p = Some a" and pa: "parent (heap s a) = par"
    and l: "heap_tree s (Some a) (left (heap s a)) l"
    and r: "heap_tree s (Some a) (right (heap s a)) r" by simp_all
  from Node.prems(2) have xa: "x \<noteq> a" and xl: "x \<notin> set_tree l" and xr: "x \<notin> set_tree r"
    by auto
  from l xl have lx: "left (heap s a) \<noteq> Some x" by (auto dest: heap_tree_Some)
  from r xr have rx: "right (heap s a) \<noteq> Some x" by (auto dest: heap_tree_Some)
  from Node.prems(3) [of a] lx rx have k: "parent (heap s' a) = parent (heap s a)"
    "left (heap s' a) = left (heap s a)" "right (heap s' a) = right (heap s a)"
    by (simp_all add: kept_def)
  from Node.IH(1) [OF l xl] Node.prems(3) have "heap_tree s' (Some a) (left (heap s a)) l"
    by simp
  moreover from Node.IH(2) [OF r xr] Node.prems(3)
  have "heap_tree s' (Some a) (right (heap s a)) r" by simp
  ultimately show ?case using p pa k by simp
qed

lemma replace_absent [simp]: "x \<notin> set_tree t \<Longrightarrow> replace x u t = t"
  by (induction t) auto

lemma heap_tree_replace:
  "heap_tree s par p t \<Longrightarrow> distinct (preorder t) \<Longrightarrow> x \<in> set_tree t \<Longrightarrow>
   heap_tree s' (parent (heap s x)) q u \<Longrightarrow>
   (\<And>b. b \<in> set_tree t \<Longrightarrow> b \<notin> set_tree (sub x t) \<Longrightarrow> kept s s' x q b) \<Longrightarrow>
   heap_tree s' par (if p = Some x then q else p) (replace x u t)"
proof (induction t arbitrary: par p)
  case Leaf
  then show ?case by simp
next
  case (Node l a r)
  from Node.prems(1) have p: "p = Some a" and pa: "parent (heap s a) = par"
    and l: "heap_tree s (Some a) (left (heap s a)) l"
    and r: "heap_tree s (Some a) (right (heap s a)) r" by simp_all
  from Node.prems(2) have dl: "distinct (preorder l)" and dr: "distinct (preorder r)"
    and al: "a \<notin> set_tree l" and ar: "a \<notin> set_tree r"
    and lr: "set_tree l \<inter> set_tree r = {}" by auto
  show ?case
  proof (cases "a = x")
    case True
    with Node.prems(4) p pa show ?thesis by simp
  next
    case ax: False
    from Node.prems(3) ax consider "x \<in> set_tree l" | "x \<in> set_tree r" by auto
    then show ?thesis
    proof cases
      case 1
      with lr have xr: "x \<notin> set_tree r" by auto
      have su: "sub x (Node l a r) = sub x l" using ax 1 by simp
      have anot: "a \<notin> set_tree (sub x l)" using al set_tree_sub [of x l] by auto
      from Node.prems(5) [of a] su anot have ka: "kept s s' x q a" by simp
      from r xr have rx: "right (heap s a) \<noteq> Some x" by (auto dest: heap_tree_Some)
      have kl: "\<And>b. b \<in> set_tree l \<Longrightarrow> b \<notin> set_tree (sub x l) \<Longrightarrow> kept s s' x q b"
        using Node.prems(5) su by simp
      have kr: "\<And>b. b \<in> set_tree r \<Longrightarrow> kept s s' x q b"
      proof -
        fix b assume b: "b \<in> set_tree r"
        with lr have "b \<notin> set_tree l" by auto
        with set_tree_sub [of x l] have "b \<notin> set_tree (sub x l)" by auto
        with Node.prems(5) [of b] su b show "kept s s' x q b" by simp
      qed
      from Node.IH(1) [OF l dl 1 Node.prems(4) kl]
      have "heap_tree s' (Some a) (if left (heap s a) = Some x then q else left (heap s a))
              (replace x u l)" by simp
      moreover from heap_tree_kept_outside [OF r xr kr]
      have "heap_tree s' (Some a) (right (heap s a)) r" .
      ultimately show ?thesis using ka rx p pa ax xr by (simp add: kept_def)
    next
      case 2
      with lr have xl: "x \<notin> set_tree l" by auto
      have su: "sub x (Node l a r) = sub x r" using ax xl by simp
      have anot: "a \<notin> set_tree (sub x r)" using ar set_tree_sub [of x r] by auto
      from Node.prems(5) [of a] su anot have ka: "kept s s' x q a" by simp
      from l xl have lx: "left (heap s a) \<noteq> Some x" by (auto dest: heap_tree_Some)
      have kr: "\<And>b. b \<in> set_tree r \<Longrightarrow> b \<notin> set_tree (sub x r) \<Longrightarrow> kept s s' x q b"
        using Node.prems(5) su by simp
      have kl: "\<And>b. b \<in> set_tree l \<Longrightarrow> kept s s' x q b"
      proof -
        fix b assume b: "b \<in> set_tree l"
        with lr have "b \<notin> set_tree r" by auto
        with set_tree_sub [of x r] have "b \<notin> set_tree (sub x r)" by auto
        with Node.prems(5) [of b] su b show "kept s s' x q b" by simp
      qed
      from Node.IH(2) [OF r dr 2 Node.prems(4) kr]
      have "heap_tree s' (Some a) (if right (heap s a) = Some x then q else right (heap s a))
              (replace x u r)" by simp
      moreover from heap_tree_kept_outside [OF l xl kl]
      have "heap_tree s' (Some a) (left (heap s a)) l" .
      ultimately show ?thesis using ka lx p pa ax xl by (simp add: kept_def)
    qed
  qed
qed

lemma set_tree_replace:
  "distinct (preorder t) \<Longrightarrow> x \<in> set_tree t \<Longrightarrow>
   set_tree (replace x u t) = (set_tree t - set_tree (sub x t)) \<union> set_tree u"
proof (induction t)
  case Leaf
  then show ?case by simp
next
  case (Node l a r)
  from Node.prems(1) have dl: "distinct (preorder l)" and dr: "distinct (preorder r)"
    and al: "a \<notin> set_tree l" and ar: "a \<notin> set_tree r"
    and lr: "set_tree l \<inter> set_tree r = {}" by auto
  show ?case
  proof (cases "a = x")
    case True
    then show ?thesis by auto
  next
    case ax: False
    from Node.prems(2) ax consider "x \<in> set_tree l" | "x \<in> set_tree r" by auto
    then show ?thesis
    proof cases
      case 1
      with lr have xr: "x \<notin> set_tree r" by auto
      from Node.IH(1) [OF dl 1] ax 1 xr al ar lr set_tree_sub [of x l]
      show ?thesis by auto
    next
      case 2
      with lr have xl: "x \<notin> set_tree l" by auto
      from Node.IH(2) [OF dr 2] ax 2 xl al ar lr set_tree_sub [of x r]
      show ?thesis by auto
    qed
  qed
qed

lemma distinct_replace:
  "distinct (preorder t) \<Longrightarrow> x \<in> set_tree t \<Longrightarrow> distinct (preorder u) \<Longrightarrow>
   set_tree u \<inter> (set_tree t - set_tree (sub x t)) = {} \<Longrightarrow>
   distinct (preorder (replace x u t))"
proof (induction t)
  case Leaf
  then show ?case by simp
next
  case (Node l a r)
  from Node.prems(1) have dl: "distinct (preorder l)" and dr: "distinct (preorder r)"
    and al: "a \<notin> set_tree l" and ar: "a \<notin> set_tree r"
    and lr: "set_tree l \<inter> set_tree r = {}" by auto
  show ?case
  proof (cases "a = x")
    case True
    with Node.prems(3) show ?thesis by simp
  next
    case ax: False
    from Node.prems(2) ax consider "x \<in> set_tree l" | "x \<in> set_tree r" by auto
    then show ?thesis
    proof cases
      case 1
      with lr have xr: "x \<notin> set_tree r" by auto
      have su: "sub x (Node l a r) = sub x l" using ax 1 by simp
      from Node.prems(4) su have du: "set_tree u \<inter> (set_tree l - set_tree (sub x l)) = {}"
        and au: "a \<notin> set_tree u" and ru: "set_tree u \<inter> set_tree r = {}"
        using al ar lr set_tree_sub [of x l] by auto
      from Node.IH(1) [OF dl 1 Node.prems(3) du]
      have "distinct (preorder (replace x u l))" .
      moreover have "set_tree (replace x u l) = (set_tree l - set_tree (sub x l)) \<union> set_tree u"
        using set_tree_replace [OF dl 1] .
      ultimately show ?thesis using ax xr dr al ar lr au ru by auto
    next
      case 2
      with lr have xl: "x \<notin> set_tree l" by auto
      have su: "sub x (Node l a r) = sub x r" using ax xl by simp
      from Node.prems(4) su have du: "set_tree u \<inter> (set_tree r - set_tree (sub x r)) = {}"
        and au: "a \<notin> set_tree u" and lu: "set_tree u \<inter> set_tree l = {}"
        using al ar lr set_tree_sub [of x r] by auto
      from Node.IH(2) [OF dr 2 Node.prems(3) du]
      have "distinct (preorder (replace x u r))" .
      moreover have "set_tree (replace x u r) = (set_tree r - set_tree (sub x r)) \<union> set_tree u"
        using set_tree_replace [OF dr 2] .
      ultimately show ?thesis using ax xl dl al ar lr au lu by auto
    qed
  qed
qed

lemma depth_replace_outside:
  "distinct (preorder t) \<Longrightarrow> x \<in> set_tree t \<Longrightarrow> b \<in> set_tree t \<Longrightarrow>
   b \<notin> set_tree (sub x t) \<Longrightarrow> b \<notin> set_tree u \<Longrightarrow>
   depth b (replace x u t) = depth b t"
proof (induction t)
  case Leaf
  then show ?case by simp
next
  case (Node l a r)
  from Node.prems(1) have dl: "distinct (preorder l)" and dr: "distinct (preorder r)"
    and al: "a \<notin> set_tree l" and ar: "a \<notin> set_tree r"
    and lr: "set_tree l \<inter> set_tree r = {}" by auto
  show ?case
  proof (cases "a = x")
    case True
    with Node.prems(3,4) show ?thesis by simp
  next
    case ax: False
    from Node.prems(2) ax consider "x \<in> set_tree l" | "x \<in> set_tree r" by auto
    then show ?thesis
    proof cases
      case 1
      with lr have xr: "x \<notin> set_tree r" by auto
      have su: "sub x (Node l a r) = sub x l" using ax 1 by simp
      have sl: "set_tree (replace x u l) = (set_tree l - set_tree (sub x l)) \<union> set_tree u"
        using set_tree_replace [OF dl 1] .
      show ?thesis
      proof (cases "b = a")
        case True
        with ax show ?thesis by simp
      next
        case ba: False
        show ?thesis
        proof (cases "b \<in> set_tree l")
          case True
          with Node.prems(4) su have "b \<notin> set_tree (sub x l)" by simp
          from Node.IH(1) [OF dl 1 True this Node.prems(5)] True ba ax sl this
          show ?thesis by simp
        next
          case False
          with Node.prems(5) sl have "b \<notin> set_tree (replace x u l)" by simp
          with False ba ax xr show ?thesis by simp
        qed
      qed
    next
      case 2
      with lr have xl: "x \<notin> set_tree l" by auto
      have su: "sub x (Node l a r) = sub x r" using ax xl by simp
      show ?thesis
      proof (cases "b = a")
        case True
        with ax show ?thesis by simp
      next
        case ba: False
        show ?thesis
        proof (cases "b \<in> set_tree l")
          case True
          with ba ax xl show ?thesis by simp
        next
          case False
          with Node.prems(3) ba have br: "b \<in> set_tree r" by simp
          with Node.prems(4) su have "b \<notin> set_tree (sub x r)" by simp
          from Node.IH(2) [OF dr 2 br this Node.prems(5)] False ba ax xl
          show ?thesis by simp
        qed
      qed
    qed
  qed
qed

lemma wf_replace:
  assumes wf: "wf_tree s t" and x: "x \<in> set_tree t"
    and u: "heap_tree s' (parent (heap s x)) q u" and du: "distinct (preorder u)"
    and disj: "set_tree u \<inter> (set_tree t - set_tree (sub x t)) = {}"
    and k: "\<And>b. b \<in> set_tree t \<Longrightarrow> b \<notin> set_tree (sub x t) \<Longrightarrow> kept s s' x q b"
    and r: "root s' = (if root s = Some x then q else root s)"
  shows "wf_tree s' (replace x u t)"
    and "set_tree (replace x u t) = (set_tree t - set_tree (sub x t)) \<union> set_tree u"
    and "\<And>b. b \<in> set_tree t \<Longrightarrow> b \<notin> set_tree (sub x t) \<Longrightarrow>
           depth b (replace x u t) = depth b t"
proof -
  from wf have h: "heap_tree s None (root s) t" and d: "distinct (preorder t)"
    by (simp_all add: wf_tree_def)
  from heap_tree_replace [OF h d x u k] r distinct_replace [OF d x du disj]
  show "wf_tree s' (replace x u t)" by (simp add: wf_tree_def)
  show "set_tree (replace x u t) = (set_tree t - set_tree (sub x t)) \<union> set_tree u"
    using set_tree_replace [OF d x] .
  fix b assume b: "b \<in> set_tree t" "b \<notin> set_tree (sub x t)"
  with disj have "b \<notin> set_tree u" by auto
  from depth_replace_outside [OF d x b this]
  show "depth b (replace x u t) = depth b t" .
qed

subsection \<open>Setters\<close>

lemma heap_set_color [simp]:
  "left (heap (set_color a c s) b) = left (heap s b)"
  "right (heap (set_color a c s) b) = right (heap s b)"
  "parent (heap (set_color a c s) b) = parent (heap s b)"
  "nid (heap (set_color a c s) b) = nid (heap s b)"
  "nvalue (heap (set_color a c s) b) = nvalue (heap s b)"
  "color (heap (set_color a c s) b) = (if b = a then c else color (heap s b))"
  "root (set_color a c s) = root s"
  "nodeCounter (set_color a c s) = nodeCounter s"
  by (simp_all add: set_color_def)

lemma heap_set_left [simp]:
  "left (heap (set_left a v s) b) = (if b = a then v else left (heap s b))"
  "right (heap (set_left a v s) b) = right (heap s b)"
  "parent (heap (set_left a v s) b) = parent (heap s b)"
  "nid (heap (set_left a v s) b) = nid (heap s b)"
  "nvalue (heap (set_left a v s) b) = nvalue (heap s b)"
  "color (heap (set_left a v s) b) = color (heap s b)"
  "root (set_left a v s) = root s"
  "nodeCounter (set_left a v s) = nodeCounter s"
  by (simp_all add: set_left_def)

lemma heap_set_right [simp]:
  "left (heap (set_right a v s) b) = left (heap s b)"
  "right (heap (set_right a v s) b) = (if b = a then v else right (heap s b))"
  "parent (heap (set_right a v s) b) = parent (heap s b)"
  "nid (heap (set_right a v s) b) = nid (heap s b)"
  "nvalue (heap (set_right a v s) b) = nvalue (heap s b)"
  "color (heap (set_right a v s) b) = color (heap s b)"
  "root (set_right a v s) = root s"
  "nodeCounter (set_right a v s) = nodeCounter s"
  by (simp_all add: set_right_def)

lemma heap_set_parent [simp]:
  "left (heap (set_parent a v s) b) = left (heap s b)"
  "right (heap (set_parent a v s) b) = right (heap s b)"
  "parent (heap (set_parent a v s) b) = (if b = a then v else parent (heap s b))"
  "nid (heap (set_parent a v s) b) = nid (heap s b)"
  "nvalue (heap (set_parent a v s) b) = nvalue (heap s b)"
  "color (heap (set_parent a v s) b) = color (heap s b)"
  "root (set_parent a v s) = root s"
  "nodeCounter (set_parent a v s) = nodeCounter s"
  by (simp_all add: set_parent_def)

lemma heap_root_update [simp]:
  "heap (s\<lparr>root := r\<rparr>) = heap s" "nodeCounter (s\<lparr>root := r\<rparr>) = nodeCounter s"
  by simp_all

subsection \<open>Rotations\<close>

lemma rotateLeft_same [simp]:
  "nid (heap (rotateLeft x s) a) = nid (heap s a)"
  "nvalue (heap (rotateLeft x s) a) = nvalue (heap s a)"
  "color (heap (rotateLeft x s) a) = color (heap s a)"
  "nodeCounter (rotateLeft x s) = nodeCounter s"
  by (simp_all add: rotateLeft_def Let_def split: option.splits)

lemma rotateRight_same [simp]:
  "nid (heap (rotateRight x s) a) = nid (heap s a)"
  "nvalue (heap (rotateRight x s) a) = nvalue (heap s a)"
  "color (heap (rotateRight x s) a) = color (heap s a)"
  "nodeCounter (rotateRight x s) = nodeCounter s"
  by (simp_all add: rotateRight_def Let_def split: option.splits)

lemma rotateLeft_fields:
  assumes "right (heap s x) = Some y" "x \<noteq> y"
    and "left (heap s y) \<noteq> Some x" "left (heap s y) \<noteq> Some y"
    and "parent (heap s x) \<noteq> Some x" "parent (heap s x) \<noteq> Some y"
    and "parent (heap s x) = None \<or> parent (heap s x) \<noteq> left (heap s y)"
  shows "left (heap (rotateLeft x s) a) =
           (if a = y then Some x
            else if Some a = parent (heap s x) \<and> left (heap s a) = Some x then Some y
            else left (heap s a))"
    and "right (heap (rotateLeft x s) a) =
           (if a = x then left (heap s y)
            else if Some a = parent (heap s x) \<and> left (heap s a) \<noteq> Some x then Some y
            else right (heap s a))"
    and "parent (heap (rotateLeft x s) a) =
           (if a = x then Some y
            else if a = y then parent (heap s x)
            else if Some a = left (heap s y) then Some x
            else parent (heap s a))"
    and "root (rotateLeft x s) = (if parent (heap s x) = None then Some y else root s)"
  using assms
  by (auto simp: rotateLeft_def Let_def split: option.splits)

lemma rotateRight_fields:
  assumes "left (heap s x) = Some y" "x \<noteq> y"
    and "right (heap s y) \<noteq> Some x" "right (heap s y) \<noteq> Some y"
    and "parent (heap s x) \<noteq> Some x" "parent (heap s x) \<noteq> Some y"
    and "parent (heap s x) = None \<or> parent (heap s x) \<noteq> right (heap s y)"
  shows "right (heap (rotateRight x s) a) =
           (if a = y then Some x
            else if Some a = parent (heap s x) \<and> right (heap s a) = Some x then Some y
            else right (heap s a))"
    and "left (heap (rotateRight x s) a) =
           (if a = x then right (heap s y)
            else if Some a = parent (heap s x) \<and> right (heap s a) \<noteq> Some x then Some y
            else left (heap s a))"
    and "parent (heap (rotateRight x s) a) =
           (if a = x then Some y
            else if a = y then parent (heap s x)
            else if Some a = right (heap s y) then Some x
            else parent (heap s a))"
    and "root (rotateRight x s) = (if parent (heap s x) = None then Some y else root s)"
  using assms
  by (auto simp: rotateRight_def Let_def split: option.splits)

lemma depth_sub:
  "distinct (preorder t) \<Longrightarrow> x \<in> set_tree t \<Longrightarrow> c \<in> set_tree (sub x t) \<Longrightarrow>
   depth c t = depth x t + depth c (sub x t)"
proof (induction t)
  case Leaf
  then show ?case by simp
next
  case (Node l a r)
  from Node.prems(1) have dl: "distinct (preorder l)" and dr: "distinct (preorder r)"
    and al: "a \<notin> set_tree l" and ar: "a \<notin> set_tree r"
    and lr: "set_tree l \<inter> set_tree r = {}" by auto
  show ?case
  proof (cases "a = x")
    case True
    then show ?thesis by simp
  next
    case ax: False
    from Node.prems(2) ax consider "x \<in> set_tree l" | "x \<in> set_tree r" by auto
    then show ?thesis
    proof cases
      case 1
      with Node.prems(3) ax have c: "c \<in> set_tree (sub x l)" by simp
      with set_tree_sub [of x l] have cl: "c \<in> set_tree l" by auto
      with al have "c \<noteq> a" by auto
      with Node.IH(1) [OF dl 1 c] ax 1 cl show ?thesis by simp
    next
      case 2
      with lr have xl: "x \<notin> set_tree l" by auto
      with Node.prems(3) ax have c: "c \<in> set_tree (sub x r)" by simp
      with set_tree_sub [of x r] have cr: "c \<in> set_tree r" by auto
      with ar lr have "c \<noteq> a" "c \<notin> set_tree l" by auto
      with Node.IH(2) [OF dr 2 c] ax xl show ?thesis by simp
    qed
  qed
qed

lemma wf_parent_outside:
  assumes "wf_tree s t" "x \<in> set_tree t" "parent (heap s x) = Some p"
  shows "p \<in> set_tree t" "p \<notin> set_tree (sub x t)" "p \<noteq> x"
proof -
  from wf_depth_parent [OF assms] show pt: "p \<in> set_tree t"
    and d: "p \<notin> set_tree (sub x t)"
    using depth_sub [of t x p] assms(1,2) by (auto simp: wf_tree_def)
  from sub_root [OF assms(2)] d show "p \<noteq> x" by auto
qed

lemma heap_tree_reparent:
  assumes "heap_tree s par p t" "distinct (preorder t)"
    and "\<And>a. a \<in> set_tree t \<Longrightarrow> left (heap s' a) = left (heap s a) \<and>
           right (heap s' a) = right (heap s a) \<and>
           (Some a \<noteq> p \<longrightarrow> parent (heap s' a) = parent (heap s a))"
    and "\<And>a. p = Some a \<Longrightarrow> parent (heap s' a) = par'"
  shows "heap_tree s' par' p t"
proof (cases t)
  case Leaf
  with assms(1) show ?thesis by simp
next
  case (Node l a r)
  with assms(1) have p: "p = Some a"
    and l: "heap_tree s (Some a) (left (heap s a)) l"
    and r: "heap_tree s (Some a) (right (heap s a)) r" by simp_all
  from assms(2) Node have al: "a \<notin> set_tree l" and ar: "a \<notin> set_tree r" by auto
  have "heap_tree s' (Some a) (left (heap s a)) l"
    using l by (rule heap_tree_frame) (use assms(3) Node p al in auto)
  moreover have "heap_tree s' (Some a) (right (heap s a)) r"
    using r by (rule heap_tree_frame) (use assms(3) Node p ar in auto)
  ultimately show ?thesis using assms(3) [of a] assms(4) [OF p] Node p by simp
qed

text \<open>The links after a rotation, on a well-formed store.\<close>

lemma rotateLeft_links:
  assumes wf: "wf_tree s t" and x: "x \<in> set_tree t" and y: "right (heap s x) = Some y"
  shows "left (heap (rotateLeft x s) a) =
           (if a = y then Some x
            else if Some a = parent (heap s x) \<and> left (heap s a) = Some x then Some y
            else left (heap s a))"
    and "right (heap (rotateLeft x s) a) =
           (if a = x then left (heap s y)
            else if Some a = parent (heap s x) \<and> left (heap s a) \<noteq> Some x then Some y
            else right (heap s a))"
    and "parent (heap (rotateLeft x s) a) =
           (if a = x then Some y
            else if a = y then parent (heap s x)
            else if Some a = left (heap s y) then Some x
            else parent (heap s a))"
    and "root (rotateLeft x s) = (if parent (heap s x) = None then Some y else root s)"
proof -
  from wf_right_child [OF wf x y] have yt: "y \<in> set_tree t" and py: "parent (heap s y) = Some x"
    and xy: "x \<noteq> y" by auto
  from wf_depth_parent [OF wf yt py] have dy: "depth y t = Suc (depth x t)" by simp
  have c3: "left (heap s y) \<noteq> Some x"
  proof
    assume "left (heap s y) = Some x"
    from wf_left_child [OF wf yt this] have "parent (heap s x) = Some y" by simp
    from wf_depth_parent [OF wf x this] dy show False by simp
  qed
  have c4: "left (heap s y) \<noteq> Some y"
    using wf_left_child [OF wf yt, of y] by auto
  have c5: "parent (heap s x) \<noteq> Some x"
    using wf_depth_parent [OF wf x, of x] by auto
  have c6: "parent (heap s x) \<noteq> Some y"
    using wf_depth_parent [OF wf x, of y] dy by auto
  have c7: "parent (heap s x) = None \<or> parent (heap s x) \<noteq> left (heap s y)"
  proof (cases "parent (heap s x)")
    case None
    then show ?thesis by simp
  next
    case (Some p)
    have "left (heap s y) \<noteq> Some p"
    proof
      assume "left (heap s y) = Some p"
      from wf_left_child [OF wf yt this] have "p \<in> set_tree t" "parent (heap s p) = Some y"
        by simp_all
      from wf_depth_parent [OF wf this] wf_depth_parent [OF wf x Some] dy
      show False by simp
    qed
    with Some show ?thesis by simp
  qed
  note f = rotateLeft_fields [OF y xy c3 c4 c5 c6 c7]
  show "left (heap (rotateLeft x s) a) =
           (if a = y then Some x
            else if Some a = parent (heap s x) \<and> left (heap s a) = Some x then Some y
            else left (heap s a))" by (rule f)
  show "right (heap (rotateLeft x s) a) =
           (if a = x then left (heap s y)
            else if Some a = parent (heap s x) \<and> left (heap s a) \<noteq> Some x then Some y
            else right (heap s a))" by (rule f)
  show "parent (heap (rotateLeft x s) a) =
           (if a = x then Some y
            else if a = y then parent (heap s x)
            else if Some a = left (heap s y) then Some x
            else parent (heap s a))" by (rule f)
  show "root (rotateLeft x s) = (if parent (heap s x) = None then Some y else root s)"
    by (rule f)
qed

lemma rotateRight_links:
  assumes wf: "wf_tree s t" and x: "x \<in> set_tree t" and y: "left (heap s x) = Some y"
  shows "right (heap (rotateRight x s) a) =
           (if a = y then Some x
            else if Some a = parent (heap s x) \<and> right (heap s a) = Some x then Some y
            else right (heap s a))"
    and "left (heap (rotateRight x s) a) =
           (if a = x then right (heap s y)
            else if Some a = parent (heap s x) \<and> right (heap s a) \<noteq> Some x then Some y
            else left (heap s a))"
    and "parent (heap (rotateRight x s) a) =
           (if a = x then Some y
            else if a = y then parent (heap s x)
            else if Some a = right (heap s y) then Some x
            else parent (heap s a))"
    and "root (rotateRight x s) = (if parent (heap s x) = None then Some y else root s)"
proof -
  from wf_left_child [OF wf x y] have yt: "y \<in> set_tree t" and py: "parent (heap s y) = Some x"
    and xy: "x \<noteq> y" by auto
  from wf_depth_parent [OF wf yt py] have dy: "depth y t = Suc (depth x t)" by simp
  have c3: "right (heap s y) \<noteq> Some x"
  proof
    assume "right (heap s y) = Some x"
    from wf_right_child [OF wf yt this] have "parent (heap s x) = Some y" by simp
    from wf_depth_parent [OF wf x this] dy show False by simp
  qed
  have c4: "right (heap s y) \<noteq> Some y"
    using wf_right_child [OF wf yt, of y] by auto
  have c5: "parent (heap s x) \<noteq> Some x"
    using wf_depth_parent [OF wf x, of x] by auto
  have c6: "parent (heap s x) \<noteq> Some y"
    using wf_depth_parent [OF wf x, of y] dy by auto
  have c7: "parent (heap s x) = None \<or> parent (heap s x) \<noteq> right (heap s y)"
  proof (cases "parent (heap s x)")
    case None
    then show ?thesis by simp
  next
    case (Some p)
    have "right (heap s y) \<noteq> Some p"
    proof
      assume "right (heap s y) = Some p"
      from wf_right_child [OF wf yt this] have "p \<in> set_tree t" "parent (heap s p) = Some y"
        by simp_all
      from wf_depth_parent [OF wf this] wf_depth_parent [OF wf x Some] dy
      show False by simp
    qed
    with Some show ?thesis by simp
  qed
  note f = rotateRight_fields [OF y xy c3 c4 c5 c6 c7]
  show "right (heap (rotateRight x s) a) =
           (if a = y then Some x
            else if Some a = parent (heap s x) \<and> right (heap s a) = Some x then Some y
            else right (heap s a))" by (rule f)
  show "left (heap (rotateRight x s) a) =
           (if a = x then right (heap s y)
            else if Some a = parent (heap s x) \<and> right (heap s a) \<noteq> Some x then Some y
            else left (heap s a))" by (rule f)
  show "parent (heap (rotateRight x s) a) =
           (if a = x then Some y
            else if a = y then parent (heap s x)
            else if Some a = right (heap s y) then Some x
            else parent (heap s a))" by (rule f)
  show "root (rotateRight x s) = (if parent (heap s x) = None then Some y else root s)"
    by (rule f)
qed

lemma wf_depth_root:
  assumes "wf_tree s t" "a \<in> set_tree t" "parent (heap s a) = None"
  shows "depth a t = 0"
proof -
  from wf_root_iff [OF assms(1,2)] assms(3) have "root s = Some a" by simp
  with assms(1) show ?thesis by (cases t) (auto simp: wf_tree_def)
qed

lemma sub_depth_le:
  assumes "wf_tree s t" "x \<in> set_tree t" "c \<in> set_tree (sub x t)"
  shows "depth x t \<le> depth c t"
  using depth_sub [of t x c] assms by (simp add: wf_tree_def)

lemma rotateLeft_wf:
  assumes wf: "wf_tree s t" and x: "x \<in> set_tree t"
  shows "\<exists>t'. wf_tree (rotateLeft x s) t' \<and> set_tree t' = set_tree t \<and>
           (\<forall>b \<in> set_tree t. b \<notin> set_tree (sub x t) \<longrightarrow> depth b t' = depth b t) \<and>
           (\<forall>y. right (heap s x) = Some y \<longrightarrow> depth y t' = depth x t)"
proof (cases "right (heap s x)")
  case None
  then have "rotateLeft x s = s" by (simp add: rotateLeft_def)
  with wf None show ?thesis by (intro exI [of _ t]) simp
next
  case (Some y)
  let ?s' = "rotateLeft x s"
  note L = rotateLeft_links [OF wf x Some]
  from wf have h: "heap_tree s None (root s) t" and d: "distinct (preorder t)"
    by (simp_all add: wf_tree_def)
  from sub_root [OF x] obtain A R where su: "sub x t = Node A x R" by blast
  from heap_tree_sub [OF h x] su Some
  have hA: "heap_tree s (Some x) (left (heap s x)) A"
    and hR: "heap_tree s (Some x) (Some y) R" by simp_all
  from hR obtain B C where R: "R = Node B y C" by (cases R) auto
  with hR have hB: "heap_tree s (Some y) (left (heap s y)) B"
    and hC: "heap_tree s (Some y) (right (heap s y)) C" by simp_all
  from distinct_sub [OF d, of x] su R
  have ds: "distinct (preorder (Node A x (Node B y C)))" by simp
  then have xy: "x \<noteq> y" and xA: "x \<notin> set_tree A" and yA: "y \<notin> set_tree A"
    and xB: "x \<notin> set_tree B" and yB: "y \<notin> set_tree B"
    and xC: "x \<notin> set_tree C" and yC: "y \<notin> set_tree C"
    and AB: "set_tree A \<inter> set_tree B = {}" and AC: "set_tree A \<inter> set_tree C = {}"
    and BC: "set_tree B \<inter> set_tree C = {}"
    and dA: "distinct (preorder A)" and dB: "distinct (preorder B)"
    and dC: "distinct (preorder C)" by auto
  have sub_set: "set_tree (sub x t) = insert x (insert y (set_tree A \<union> set_tree B \<union> set_tree C))"
    using su R by auto
  have pout: "\<And>p. parent (heap s x) = Some p \<Longrightarrow> p \<notin> set_tree (sub x t)"
    using wf_parent_outside [OF wf x] by blast
  have ylB: "\<And>b. left (heap s y) = Some b \<Longrightarrow> b \<in> set_tree B"
    using hB by (auto dest: heap_tree_Some)
  let ?u = "Node (Node A x B) y C"
  have fA: "heap_tree ?s' (Some x) (left (heap s x)) A"
    using hA
  proof (rule heap_tree_frame)
    fix a assume a: "a \<in> set_tree A"
    with xA yA AB have n: "a \<noteq> x" "a \<noteq> y" "a \<notin> set_tree B" by auto
    from a sub_set pout have "Some a \<noteq> parent (heap s x)" by auto
    moreover from n ylB have "Some a \<noteq> left (heap s y)" by auto
    ultimately show "left (heap ?s' a) = left (heap s a) \<and>
        right (heap ?s' a) = right (heap s a) \<and> parent (heap ?s' a) = parent (heap s a)"
      using n by (simp add: L)
  qed
  have fC: "heap_tree ?s' (Some y) (right (heap s y)) C"
    using hC
  proof (rule heap_tree_frame)
    fix a assume a: "a \<in> set_tree C"
    with xC yC BC have n: "a \<noteq> x" "a \<noteq> y" "a \<notin> set_tree B" by auto
    from a sub_set pout have "Some a \<noteq> parent (heap s x)" by auto
    moreover from n ylB have "Some a \<noteq> left (heap s y)" by auto
    ultimately show "left (heap ?s' a) = left (heap s a) \<and>
        right (heap ?s' a) = right (heap s a) \<and> parent (heap ?s' a) = parent (heap s a)"
      using n by (simp add: L)
  qed
  have fB: "heap_tree ?s' (Some x) (left (heap s y)) B"
    using hB dB
  proof (rule heap_tree_reparent)
    fix a assume a: "a \<in> set_tree B"
    with xB yB have n: "a \<noteq> x" "a \<noteq> y" by auto
    from a sub_set pout have "Some a \<noteq> parent (heap s x)" by auto
    then show "left (heap ?s' a) = left (heap s a) \<and>
        right (heap ?s' a) = right (heap s a) \<and>
        (Some a \<noteq> left (heap s y) \<longrightarrow> parent (heap ?s' a) = parent (heap s a))"
      using n by (simp add: L)
  next
    fix a assume a: "left (heap s y) = Some a"
    with ylB xB yB have "a \<noteq> x" "a \<noteq> y" by auto
    with a show "parent (heap ?s' a) = Some x" by (simp add: L)
  qed
  have px: "parent (heap s x) \<noteq> Some x" "parent (heap s x) \<noteq> Some y"
    using pout sub_set by auto
  have U: "heap_tree ?s' (parent (heap s x)) (Some y) ?u"
    using fA fB fC xy px by (simp add: L)
  have du: "distinct (preorder ?u)" using ds by auto
  have su': "set_tree ?u = set_tree (sub x t)" using sub_set by auto
  have disj: "set_tree ?u \<inter> (set_tree t - set_tree (sub x t)) = {}" using su' by auto
  have K: "\<And>b. b \<in> set_tree t \<Longrightarrow> b \<notin> set_tree (sub x t) \<Longrightarrow> kept s ?s' x (Some y) b"
  proof -
    fix b assume b: "b \<in> set_tree t" and bo: "b \<notin> set_tree (sub x t)"
    with sub_set have n: "b \<noteq> x" "b \<noteq> y" "b \<notin> set_tree B" by auto
    with ylB have n2: "Some b \<noteq> left (heap s y)" by auto
    have l: "left (heap s b) = Some x \<Longrightarrow> parent (heap s x) = Some b"
      using wf_left_child [OF wf b] by simp
    have r: "right (heap s b) = Some x \<Longrightarrow> parent (heap s x) = Some b"
      using wf_right_child [OF wf b] by simp
    have lr: "left (heap s b) = Some x \<Longrightarrow> right (heap s b) \<noteq> Some x"
      using wf_children_differ [OF wf b] by simp
    have ch: "parent (heap s x) = Some b \<Longrightarrow>
        left (heap s b) = Some x \<or> right (heap s b) = Some x"
      using wf_parent [OF wf x] by auto
    have k1: "parent (heap ?s' b) = parent (heap s b)"
      using n n2 by (simp add: L)
    have k2: "left (heap ?s' b) = (if left (heap s b) = Some x then Some y else left (heap s b))"
    proof (cases "left (heap s b) = Some x")
      case True
      with l n show ?thesis by (simp add: L)
    next
      case False
      with n show ?thesis by (simp add: L)
    qed
    have k3: "right (heap ?s' b) = (if right (heap s b) = Some x then Some y else right (heap s b))"
    proof (cases "right (heap s b) = Some x")
      case True
      with r lr n show ?thesis by (auto simp: L)
    next
      case False
      show ?thesis
      proof (cases "parent (heap s x) = Some b")
        case True
        with ch False have "left (heap s b) = Some x" by simp
        with False n show ?thesis by (simp add: L)
      next
        case nb: False
        then have "Some b \<noteq> parent (heap s x)" by auto
        with False n show ?thesis by (simp add: L)
      qed
    qed
    show "kept s ?s' x (Some y) b"
      unfolding kept_def using k1 k2 k3 by simp
  qed
  have rt: "root ?s' = (if root s = Some x then Some y else root s)"
    using wf_root_iff [OF wf x] by (simp add: L)
  from wf_replace [OF wf x U du disj K rt] su' set_tree_sub [of x t]
  have w': "wf_tree ?s' (replace x ?u t)" and s': "set_tree (replace x ?u t) = set_tree t"
    and o': "\<forall>b \<in> set_tree t. b \<notin> set_tree (sub x t) \<longrightarrow>
               depth b (replace x ?u t) = depth b t"
    by auto
  have yt': "y \<in> set_tree (replace x ?u t)" using s' su' x sub_set set_tree_sub [of x t] by auto
  have "depth y (replace x ?u t) = depth x t"
  proof (cases "parent (heap s x)")
    case None
    then have "parent (heap ?s' y) = None" using xy by (simp add: L)
    from wf_depth_root [OF w' yt' this] wf_depth_root [OF wf x None] show ?thesis by simp
  next
    case (Some p)
    then have py': "parent (heap ?s' y) = Some p" using xy by (simp add: L)
    from wf_parent_outside [OF wf x Some] have "p \<in> set_tree t" "p \<notin> set_tree (sub x t)"
      by simp_all
    with o' have "depth p (replace x ?u t) = depth p t" by simp
    with wf_depth_parent [OF w' yt' py'] wf_depth_parent [OF wf x Some] show ?thesis by simp
  qed
  with w' s' o' Some show ?thesis by auto
qed


lemma rotateRight_wf:
  assumes wf: "wf_tree s t" and x: "x \<in> set_tree t"
  shows "\<exists>t'. wf_tree (rotateRight x s) t' \<and> set_tree t' = set_tree t \<and>
           (\<forall>b \<in> set_tree t. b \<notin> set_tree (sub x t) \<longrightarrow> depth b t' = depth b t) \<and>
           (\<forall>y. left (heap s x) = Some y \<longrightarrow> depth y t' = depth x t)"
proof (cases "left (heap s x)")
  case None
  then have "rotateRight x s = s" by (simp add: rotateRight_def)
  with wf None show ?thesis by (intro exI [of _ t]) simp
next
  case (Some y)
  let ?s' = "rotateRight x s"
  note L = rotateRight_links [OF wf x Some]
  from wf have h: "heap_tree s None (root s) t" and d: "distinct (preorder t)"
    by (simp_all add: wf_tree_def)
  from sub_root [OF x] obtain Lt C where su: "sub x t = Node Lt x C" by blast
  from heap_tree_sub [OF h x] su Some
  have hL: "heap_tree s (Some x) (Some y) Lt"
    and hC: "heap_tree s (Some x) (right (heap s x)) C" by simp_all
  from hL obtain A B where Lt: "Lt = Node A y B" by (cases Lt) auto
  with hL have hA: "heap_tree s (Some y) (left (heap s y)) A"
    and hB: "heap_tree s (Some y) (right (heap s y)) B" by simp_all
  from distinct_sub [OF d, of x] su Lt
  have ds: "distinct (preorder (Node (Node A y B) x C))" by simp
  then have xy: "x \<noteq> y" and xA: "x \<notin> set_tree A" and yA: "y \<notin> set_tree A"
    and xB: "x \<notin> set_tree B" and yB: "y \<notin> set_tree B"
    and xC: "x \<notin> set_tree C" and yC: "y \<notin> set_tree C"
    and AB: "set_tree A \<inter> set_tree B = {}" and AC: "set_tree A \<inter> set_tree C = {}"
    and BC: "set_tree B \<inter> set_tree C = {}"
    and dA: "distinct (preorder A)" and dB: "distinct (preorder B)"
    and dC: "distinct (preorder C)" by auto
  have sub_set: "set_tree (sub x t) = insert x (insert y (set_tree A \<union> set_tree B \<union> set_tree C))"
    using su Lt by auto
  have pout: "\<And>p. parent (heap s x) = Some p \<Longrightarrow> p \<notin> set_tree (sub x t)"
    using wf_parent_outside [OF wf x] by blast
  have yrB: "\<And>b. right (heap s y) = Some b \<Longrightarrow> b \<in> set_tree B"
    using hB by (auto dest: heap_tree_Some)
  let ?u = "Node A y (Node B x C)"
  have fA: "heap_tree ?s' (Some y) (left (heap s y)) A"
    using hA
  proof (rule heap_tree_frame)
    fix a assume a: "a \<in> set_tree A"
    with xA yA AB have n: "a \<noteq> x" "a \<noteq> y" "a \<notin> set_tree B" by auto
    from a sub_set pout have "Some a \<noteq> parent (heap s x)" by auto
    moreover from n yrB have "Some a \<noteq> right (heap s y)" by auto
    ultimately show "left (heap ?s' a) = left (heap s a) \<and>
        right (heap ?s' a) = right (heap s a) \<and> parent (heap ?s' a) = parent (heap s a)"
      using n by (simp add: L)
  qed
  have fC: "heap_tree ?s' (Some x) (right (heap s x)) C"
    using hC
  proof (rule heap_tree_frame)
    fix a assume a: "a \<in> set_tree C"
    with xC yC BC have n: "a \<noteq> x" "a \<noteq> y" "a \<notin> set_tree B" by auto
    from a sub_set pout have "Some a \<noteq> parent (heap s x)" by auto
    moreover from n yrB have "Some a \<noteq> right (heap s y)" by auto
    ultimately show "left (heap ?s' a) = left (heap s a) \<and>
        right (heap ?s' a) = right (heap s a) \<and> parent (heap ?s' a) = parent (heap s a)"
      using n by (simp add: L)
  qed
  have fB: "heap_tree ?s' (Some x) (right (heap s y)) B"
    using hB dB
  proof (rule heap_tree_reparent)
    fix a assume a: "a \<in> set_tree B"
    with xB yB have n: "a \<noteq> x" "a \<noteq> y" by auto
    from a sub_set pout have "Some a \<noteq> parent (heap s x)" by auto
    then show "left (heap ?s' a) = left (heap s a) \<and>
        right (heap ?s' a) = right (heap s a) \<and>
        (Some a \<noteq> right (heap s y) \<longrightarrow> parent (heap ?s' a) = parent (heap s a))"
      using n by (simp add: L)
  next
    fix a assume a: "right (heap s y) = Some a"
    with yrB xB yB have "a \<noteq> x" "a \<noteq> y" by auto
    with a show "parent (heap ?s' a) = Some x" by (simp add: L)
  qed
  have px: "parent (heap s x) \<noteq> Some x" "parent (heap s x) \<noteq> Some y"
    using pout sub_set by auto
  have U: "heap_tree ?s' (parent (heap s x)) (Some y) ?u"
    using fA fB fC xy px by (simp add: L)
  have du: "distinct (preorder ?u)" using ds by auto
  have su': "set_tree ?u = set_tree (sub x t)" using sub_set by auto
  have disj: "set_tree ?u \<inter> (set_tree t - set_tree (sub x t)) = {}" using su' by auto
  have K: "\<And>b. b \<in> set_tree t \<Longrightarrow> b \<notin> set_tree (sub x t) \<Longrightarrow> kept s ?s' x (Some y) b"
  proof -
    fix b assume b: "b \<in> set_tree t" and bo: "b \<notin> set_tree (sub x t)"
    with sub_set have n: "b \<noteq> x" "b \<noteq> y" "b \<notin> set_tree B" by auto
    with yrB have n2: "Some b \<noteq> right (heap s y)" by auto
    have l: "left (heap s b) = Some x \<Longrightarrow> parent (heap s x) = Some b"
      using wf_left_child [OF wf b] by simp
    have r: "right (heap s b) = Some x \<Longrightarrow> parent (heap s x) = Some b"
      using wf_right_child [OF wf b] by simp
    have lr: "left (heap s b) = Some x \<Longrightarrow> right (heap s b) \<noteq> Some x"
      using wf_children_differ [OF wf b] by simp
    have ch: "parent (heap s x) = Some b \<Longrightarrow>
        left (heap s b) = Some x \<or> right (heap s b) = Some x"
      using wf_parent [OF wf x] by auto
    have k1: "parent (heap ?s' b) = parent (heap s b)"
      using n n2 by (simp add: L)
    have k3: "right (heap ?s' b) = (if right (heap s b) = Some x then Some y else right (heap s b))"
    proof (cases "right (heap s b) = Some x")
      case True
      with r n show ?thesis by (simp add: L)
    next
      case False
      with n show ?thesis by (simp add: L)
    qed
    have k2: "left (heap ?s' b) = (if left (heap s b) = Some x then Some y else left (heap s b))"
    proof (cases "left (heap s b) = Some x")
      case True
      with l lr n show ?thesis by (auto simp: L)
    next
      case False
      show ?thesis
      proof (cases "parent (heap s x) = Some b")
        case True
        with ch False have "right (heap s b) = Some x" by simp
        with False n show ?thesis by (simp add: L)
      next
        case nb: False
        then have "Some b \<noteq> parent (heap s x)" by auto
        with False n show ?thesis by (simp add: L)
      qed
    qed
    show "kept s ?s' x (Some y) b"
      unfolding kept_def using k1 k2 k3 by simp
  qed
  have rt: "root ?s' = (if root s = Some x then Some y else root s)"
    using wf_root_iff [OF wf x] by (simp add: L)
  from wf_replace [OF wf x U du disj K rt] su' set_tree_sub [of x t]
  have w': "wf_tree ?s' (replace x ?u t)" and s': "set_tree (replace x ?u t) = set_tree t"
    and o': "\<forall>b \<in> set_tree t. b \<notin> set_tree (sub x t) \<longrightarrow>
               depth b (replace x ?u t) = depth b t"
    by auto
  have yt': "y \<in> set_tree (replace x ?u t)" using s' su' x sub_set set_tree_sub [of x t] by auto
  have "depth y (replace x ?u t) = depth x t"
  proof (cases "parent (heap s x)")
    case None
    then have "parent (heap ?s' y) = None" using xy by (simp add: L)
    from wf_depth_root [OF w' yt' this] wf_depth_root [OF wf x None] show ?thesis by simp
  next
    case (Some p)
    then have py': "parent (heap ?s' y) = Some p" using xy by (simp add: L)
    from wf_parent_outside [OF wf x Some] have "p \<in> set_tree t" "p \<notin> set_tree (sub x t)"
      by simp_all
    with o' have "depth p (replace x ?u t) = depth p t" by simp
    with wf_depth_parent [OF w' yt' py'] wf_depth_parent [OF wf x Some] show ?thesis by simp
  qed
  with w' s' o' Some show ?thesis by auto
qed

subsection \<open>Exports of a well-formed, named store\<close>

lemma length_filter_eq_distinct:
  "distinct xs \<Longrightarrow> r \<in> set xs \<Longrightarrow> length (filter (\<lambda>a. a = r) xs) = 1"
  by (induction xs) (auto simp: filter_empty_conv)

lemma export_fields [simp]:
  "svalue (export_node s a) = nvalue (heap s a)"
  "scolor (export_node s a) = color (heap s a)"
  "parentId (export_node s a) = id_of s (parent (heap s a))"
  "leftId (export_node s a) = id_of s (left (heap s a))"
  "rightId (export_node s a) = id_of s (right (heap s a))"
  by (simp_all add: export_node_def)

lemma export_good:
  assumes "tree_inv s t"
  shows "good_export (map (export_node s) (preorder t))"
proof -
  from assms have wf: "wf_tree s t" and nm: "named s t" by (simp_all add: tree_inv_def)
  from wf have d: "distinct (preorder t)" by (simp add: wf_tree_def)
  have ids: "\<And>a. a \<in> set_tree t \<Longrightarrow> nid (heap s a) = node_name a"
    using nm by (simp add: named_def)
  have "map sid (map (export_node s) (preorder t)) = map node_name (preorder t)"
    using ids by simp
  moreover have "distinct (map node_name (preorder t))"
    using d by (simp add: distinct_map inj_on_def)
  ultimately have g1: "distinct (map sid (map (export_node s) (preorder t)))"
    by (simp only:)
  have g2: "\<forall>n \<in> set (map (export_node s) (preorder t)). \<forall>i.
      leftId n = Some i \<or> rightId n = Some i \<longrightarrow>
      (\<exists>m \<in> set (map (export_node s) (preorder t)). sid m = i \<and> parentId m = Some (sid n))"
  proof (intro ballI allI impI)
    fix n i assume n: "n \<in> set (map (export_node s) (preorder t))"
      and c: "leftId n = Some i \<or> rightId n = Some i"
    from n obtain a where a: "a \<in> set_tree t" and na: "n = export_node s a" by auto
    from c na obtain b where b: "left (heap s a) = Some b \<or> right (heap s a) = Some b"
      and ib: "i = nid (heap s b)" by (auto simp: id_of_def)
    from b wf_left_child [OF wf a] wf_right_child [OF wf a]
    have bt: "b \<in> set_tree t" and pb: "parent (heap s b) = Some a" by auto
    from bt have "export_node s b \<in> set (map (export_node s) (preorder t))" by simp
    moreover have "sid (export_node s b) = i" using ib by simp
    moreover have "parentId (export_node s b) = Some (sid n)"
      using pb na by (simp add: id_of_def)
    ultimately show "\<exists>m \<in> set (map (export_node s) (preorder t)).
        sid m = i \<and> parentId m = Some (sid n)" by blast
  qed
  have g3: "map (export_node s) (preorder t) \<noteq> [] \<longrightarrow>
      length (filter (\<lambda>n. parentId n = None) (map (export_node s) (preorder t))) = 1"
  proof
    assume "map (export_node s) (preorder t) \<noteq> []"
    then obtain l r0 r where t: "t = Node l r0 r" by (cases t) auto
    with wf have rt: "root s = Some r0" by (simp add: wf_tree_def)
    have r0: "r0 \<in> set (preorder t)" using t by simp
    have "filter (\<lambda>n. parentId n = None) (map (export_node s) (preorder t)) =
          map (export_node s) (filter (\<lambda>a. a = r0) (preorder t))"
      unfolding filter_map comp_def
    proof (rule arg_cong [where f = "map (export_node s)"], rule filter_cong [OF refl])
      fix a assume "a \<in> set (preorder t)"
      then have a: "a \<in> set_tree t" by simp
      from wf_root_iff [OF wf a] rt
      show "(parentId (export_node s a) = None) = (a = r0)" by (auto simp: id_of_def)
    qed
    with length_filter_eq_distinct [OF d r0]
    show "length (filter (\<lambda>n. parentId n = None) (map (export_node s) (preorder t))) = 1"
      by simp
  qed
  from g1 g2 g3 show ?thesis unfolding good_export_def by blast
qed

subsection \<open>Recording keeps the invariant\<close>

lemma recordSnapshot_inv:
  assumes "rec_inv st t"
  shows "\<exists>st'. recordSnapshot d h st = Some st' \<and> tree st' = tree st \<and> rec_inv st' t"
proof -
  from assms have ti: "tree_inv (tree st) t" by (simp add: rec_inv_def)
  then have "wf_tree (tree st) t" by (simp add: tree_inv_def)
  from serializeTree_wf [OF this]
  have ser: "serializeTree (tree st) = Some (map (export_node (tree st)) (preorder t))" .
  from export_good [OF ti] assms ser show ?thesis
    by (simp add: recordSnapshot_def Let_def rec_inv_def)
qed

lemma recordCompact_inv:
  assumes "rec_inv st t"
  shows "\<exists>st'. recordCompact d f st = Some st' \<and> tree st' = tree st \<and> rec_inv st' t"
  unfolding recordCompact_def using assms by (rule recordSnapshot_inv)

lemma on_tree_inv:
  "rec_inv st t \<Longrightarrow> tree_inv (f (tree st)) t' \<Longrightarrow> rec_inv (on_tree f st) t'"
  by (simp add: rec_inv_def on_tree_def)

lemma tree_inv_set_color [simp]: "tree_inv (set_color a c s) t = tree_inv s t"
proof -
  have "heap_tree (set_color a c s) par p t = heap_tree s par p t" for par p
    by (induction t arbitrary: par p) simp_all
  then show ?thesis by (simp add: tree_inv_def wf_tree_def named_def)
qed

lemma rotateLeft_inv:
  assumes "tree_inv s t" "x \<in> set_tree t"
  shows "\<exists>t'. tree_inv (rotateLeft x s) t' \<and> set_tree t' = set_tree t \<and>
           (\<forall>b \<in> set_tree t. b \<notin> set_tree (sub x t) \<longrightarrow> depth b t' = depth b t) \<and>
           (\<forall>y. right (heap s x) = Some y \<longrightarrow> depth y t' = depth x t)"
proof -
  from assms(1) have wf: "wf_tree s t" and nm: "named s t" by (simp_all add: tree_inv_def)
  from rotateLeft_wf [OF wf assms(2)] obtain t' where t': "wf_tree (rotateLeft x s) t'"
    "set_tree t' = set_tree t"
    "\<forall>b \<in> set_tree t. b \<notin> set_tree (sub x t) \<longrightarrow> depth b t' = depth b t"
    "\<forall>y. right (heap s x) = Some y \<longrightarrow> depth y t' = depth x t" by blast
  from nm t'(2) have "named (rotateLeft x s) t'" by (simp add: named_def)
  with t' show ?thesis unfolding tree_inv_def by blast
qed

lemma rotateRight_inv:
  assumes "tree_inv s t" "x \<in> set_tree t"
  shows "\<exists>t'. tree_inv (rotateRight x s) t' \<and> set_tree t' = set_tree t \<and>
           (\<forall>b \<in> set_tree t. b \<notin> set_tree (sub x t) \<longrightarrow> depth b t' = depth b t) \<and>
           (\<forall>y. left (heap s x) = Some y \<longrightarrow> depth y t' = depth x t)"
proof -
  from assms(1) have wf: "wf_tree s t" and nm: "named s t" by (simp_all add: tree_inv_def)
  from rotateRight_wf [OF wf assms(2)] obtain t' where t': "wf_tree (rotateRight x s) t'"
    "set_tree t' = set_tree t"
    "\<forall>b \<in> set_tree t. b \<notin> set_tree (sub x t) \<longrightarrow> depth b t' = depth b t"
    "\<forall>y. left (heap s x) = Some y \<longrightarrow> depth y t' = depth x t" by blast
  from nm t'(2) have "named (rotateRight x s) t'" by (simp add: named_def)
  with t' show ?thesis unfolding tree_inv_def by blast
qed

subsection \<open>Stepping through the option monad\<close>

lemma recordCompact_bind:
  assumes "rec_inv st t"
    and "\<And>st'. tree st' = tree st \<Longrightarrow> rec_inv st' t \<Longrightarrow> \<exists>y. k st' = Some y \<and> Q y"
  shows "\<exists>y. (recordCompact d f st \<bind> k) = Some y \<and> Q y"
proof -
  from recordCompact_inv [OF assms(1), of d f] obtain st' where
    "recordCompact d f st = Some st'" "tree st' = tree st" "rec_inv st' t" by blast
  with assms(2) [of st'] show ?thesis by simp
qed

lemma recordSnapshot_bind:
  assumes "rec_inv st t"
    and "\<And>st'. tree st' = tree st \<Longrightarrow> rec_inv st' t \<Longrightarrow> \<exists>y. k st' = Some y \<and> Q y"
  shows "\<exists>y. (recordSnapshot d h st \<bind> k) = Some y \<and> Q y"
proof -
  from recordSnapshot_inv [OF assms(1), of d h] obtain st' where
    "recordSnapshot d h st = Some st'" "tree st' = tree st" "rec_inv st' t" by blast
  with assms(2) [of st'] show ?thesis by simp
qed

lemma rec_inv_on_tree:
  "rec_inv st t \<Longrightarrow> tree_inv (f (tree st)) t' \<Longrightarrow> rec_inv (on_tree f st) t'"
  by (rule on_tree_inv)

lemma rec_inv_tree: "rec_inv st t \<Longrightarrow> tree_inv (tree st) t"
  by (simp add: rec_inv_def)

lemma rec_inv_set_color [simp]: "rec_inv (on_tree (set_color a c) st) t = rec_inv st t"
  by (simp add: rec_inv_def on_tree_def)

subsection \<open>Insert fixup\<close>

lemma fixInsert_recolor_inv:
  assumes "rec_inv st t"
  shows "\<exists>r. fixInsert_recolor p u g st = Some r \<and>
           (\<exists>st'. r = InsertAgain g st' \<and> rec_inv st' t)"
  unfolding fixInsert_recolor_def Let_def
  by (rule recordSnapshot_bind [where t = t]) (use assms in simp_all)

text \<open>The tree-level effect of the rotation branch under a left parent.\<close>

lemma rotate_left_side_tree:
  assumes ti: "tree_inv s t" and n: "node \<in> set_tree t"
    and pn: "parent (heap s node) = Some p" and pp: "parent (heap s p) = Some g"
    and lg: "left (heap s g) = Some p"
  shows "right (heap s p) = Some node \<Longrightarrow>
           \<exists>t1 t2. tree_inv (rotateLeft p s) t1 \<and>
             tree_inv (rotateRight g (set_color g red (set_color p black (rotateLeft p s)))) t2 \<and>
             set_tree t2 = set_tree t \<and> depth p t2 < depth node t"
    and "right (heap s p) \<noteq> Some node \<Longrightarrow>
           \<exists>t2. tree_inv (rotateRight g (set_color g red (set_color p black s))) t2 \<and>
             set_tree t2 = set_tree t \<and> depth node t2 < depth node t"
proof -
  from ti have wf: "wf_tree s t" by (simp add: tree_inv_def)
  from wf_depth_parent [OF wf n pn] have pt: "p \<in> set_tree t"
    and dn: "depth node t = Suc (depth p t)" by simp_all
  from wf_depth_parent [OF wf pt pp] have gt: "g \<in> set_tree t"
    and dp: "depth p t = Suc (depth g t)" by simp_all
  from dn dp have ne: "node \<noteq> p" "node \<noteq> g" "p \<noteq> g" by auto
  {
    assume A: "right (heap s p) = Some node"
    let ?s1 = "rotateLeft p s"
    let ?c = "set_color g red (set_color p black ?s1)"
    let ?s2 = "rotateRight g ?c"
    note L = rotateLeft_links [OF wf pt A]
    from rotateLeft_inv [OF ti pt] A obtain t1 where t1: "tree_inv ?s1 t1"
      and s1: "set_tree t1 = set_tree t"
      and o1: "\<forall>b \<in> set_tree t. b \<notin> set_tree (sub p t) \<longrightarrow> depth b t1 = depth b t"
      by blast
    from t1 have tc: "tree_inv ?c t1" by simp
    then have wfc: "wf_tree ?c t1" by (simp add: tree_inv_def)
    from gt s1 have gt1: "g \<in> set_tree t1" by simp
    have lg1: "left (heap ?c g) = Some node" using ne pp lg by (simp add: L)
    note R = rotateRight_links [OF wfc gt1 lg1]
    from rotateRight_inv [OF tc gt1] lg1 obtain t2 where t2: "tree_inv ?s2 t2"
      and s2: "set_tree t2 = set_tree t1"
      and dn2: "depth node t2 = depth g t1" by blast
    from t2 have wf2: "wf_tree ?s2 t2" by (simp add: tree_inv_def)
    have "g \<notin> set_tree (sub p t)" using sub_depth_le [OF wf pt, of g] dp by auto
    with o1 gt have dg1: "depth g t1 = depth g t" by simp
    have rn: "right (heap s node) \<noteq> Some p"
      using wf_right_child [OF wf n, of p] pp ne by auto
    have "parent (heap ?s2 p) = Some node" using ne pp rn by (simp add: R L)
    moreover have "p \<in> set_tree t2" using pt s1 s2 by simp
    ultimately have "depth p t2 = Suc (depth node t2)"
      using wf_depth_parent [OF wf2] by simp
    with dn2 dg1 dn dp have "depth p t2 < depth node t" by simp
    with t1 t2 s1 s2 have "\<exists>t1 t2. tree_inv ?s1 t1 \<and> tree_inv ?s2 t2 \<and>
             set_tree t2 = set_tree t \<and> depth p t2 < depth node t" by auto
  }
  then show "right (heap s p) = Some node \<Longrightarrow>
           \<exists>t1 t2. tree_inv (rotateLeft p s) t1 \<and>
             tree_inv (rotateRight g (set_color g red (set_color p black (rotateLeft p s)))) t2 \<and>
             set_tree t2 = set_tree t \<and> depth p t2 < depth node t" .
  {
    assume B: "right (heap s p) \<noteq> Some node"
    let ?c = "set_color g red (set_color p black s)"
    let ?s2 = "rotateRight g ?c"
    from ti have tc: "tree_inv ?c t" by simp
    then have wfc: "wf_tree ?c t" by (simp add: tree_inv_def)
    have lgc: "left (heap ?c g) = Some p" using lg by simp
    note R = rotateRight_links [OF wfc gt lgc]
    from rotateRight_inv [OF tc gt] lgc obtain t2 where t2: "tree_inv ?s2 t2"
      and s2: "set_tree t2 = set_tree t"
      and dp2: "depth p t2 = depth g t" by blast
    from t2 have wf2: "wf_tree ?s2 t2" by (simp add: tree_inv_def)
    have "parent (heap ?s2 node) = Some p" using ne pn B by (simp add: R)
    moreover have "node \<in> set_tree t2" using n s2 by simp
    ultimately have "depth node t2 = Suc (depth p t2)"
      using wf_depth_parent [OF wf2] by simp
    with dp2 dn dp have "depth node t2 < depth node t" by simp
    with t2 s2 have "\<exists>t2. tree_inv ?s2 t2 \<and> set_tree t2 = set_tree t \<and>
        depth node t2 < depth node t" by auto
  }
  then show "right (heap s p) \<noteq> Some node \<Longrightarrow>
           \<exists>t2. tree_inv (rotateRight g (set_color g red (set_color p black s))) t2 \<and>
             set_tree t2 = set_tree t \<and> depth node t2 < depth node t" .
qed

lemma fixInsert_rotate_left_side_inv:
  assumes I: "rec_inv st t" and n: "node \<in> set_tree t"
    and pn: "parent (heap (tree st) node) = Some p"
    and pp: "parent (heap (tree st) p) = Some g"
    and lg: "left (heap (tree st) g) = Some p"
  shows "\<exists>r. fixInsert_rotate_left_side node p g st = Some r \<and>
           (\<exists>node' st' t'. r = InsertAgain node' st' \<and> rec_inv st' t' \<and>
              set_tree t' = set_tree t \<and> node' \<in> set_tree t' \<and>
              depth node' t' < depth node t)"
proof -
  note ti = rec_inv_tree [OF I]
  from ti have wf: "wf_tree (tree st) t" by (simp add: tree_inv_def)
  from wf_depth_parent [OF wf n pn] have pt: "p \<in> set_tree t" by simp
  note T = rotate_left_side_tree [OF ti n pn pp lg]
  show ?thesis
  proof (cases "right (heap (tree st) p) = Some node")
    case True
    from T(1) [OF True] obtain t1 t2 where t1: "tree_inv (rotateLeft p (tree st)) t1"
      and t2: "tree_inv (rotateRight g (set_color g red (set_color p black
                 (rotateLeft p (tree st))))) t2"
      and s2: "set_tree t2 = set_tree t" and d: "depth p t2 < depth node t" by blast
    have I1: "rec_inv (on_tree (rotateLeft p) st) t1"
      using I t1 by (rule rec_inv_on_tree)
    show ?thesis
      unfolding fixInsert_rotate_left_side_def
      apply (simp add: True Let_def)
      apply (rule recordCompact_bind [OF I1])
      apply simp
      apply (rule recordCompact_bind [where t = t2])
       apply (rule rec_inv_on_tree [where t = t1])
        apply simp
       apply (simp add: t2)
      using s2 d pt apply auto
      done
  next
    case False
    from T(2) [OF False] obtain t2 where
      t2: "tree_inv (rotateRight g (set_color g red (set_color p black (tree st)))) t2"
      and s2: "set_tree t2 = set_tree t" and d: "depth node t2 < depth node t" by blast
    show ?thesis
      unfolding fixInsert_rotate_left_side_def
      apply (simp add: False Let_def)
      apply (rule recordCompact_bind [where t = t2])
       apply (rule rec_inv_on_tree [where t = t])
        apply (simp add: I)
       apply (simp add: t2)
      using s2 d n apply auto
      done
  qed
qed

text \<open>The tree-level effect of the rotation branch under a right parent.\<close>

lemma rotate_right_side_tree:
  assumes ti: "tree_inv s t" and n: "node \<in> set_tree t"
    and pn: "parent (heap s node) = Some p" and pp: "parent (heap s p) = Some g"
    and lg: "right (heap s g) = Some p"
  shows "left (heap s p) = Some node \<Longrightarrow>
           \<exists>t1 t2. tree_inv (rotateRight p s) t1 \<and>
             tree_inv (rotateLeft g (set_color g red (set_color p black (rotateRight p s)))) t2 \<and>
             set_tree t2 = set_tree t \<and> depth p t2 < depth node t"
    and "left (heap s p) \<noteq> Some node \<Longrightarrow>
           \<exists>t2. tree_inv (rotateLeft g (set_color g red (set_color p black s))) t2 \<and>
             set_tree t2 = set_tree t \<and> depth node t2 < depth node t"
proof -
  from ti have wf: "wf_tree s t" by (simp add: tree_inv_def)
  from wf_depth_parent [OF wf n pn] have pt: "p \<in> set_tree t"
    and dn: "depth node t = Suc (depth p t)" by simp_all
  from wf_depth_parent [OF wf pt pp] have gt: "g \<in> set_tree t"
    and dp: "depth p t = Suc (depth g t)" by simp_all
  from dn dp have ne: "node \<noteq> p" "node \<noteq> g" "p \<noteq> g" by auto
  {
    assume A: "left (heap s p) = Some node"
    let ?s1 = "rotateRight p s"
    let ?c = "set_color g red (set_color p black ?s1)"
    let ?s2 = "rotateLeft g ?c"
    note L = rotateRight_links [OF wf pt A]
    from rotateRight_inv [OF ti pt] A obtain t1 where t1: "tree_inv ?s1 t1"
      and s1: "set_tree t1 = set_tree t"
      and o1: "\<forall>b \<in> set_tree t. b \<notin> set_tree (sub p t) \<longrightarrow> depth b t1 = depth b t"
      by blast
    from t1 have tc: "tree_inv ?c t1" by simp
    then have wfc: "wf_tree ?c t1" by (simp add: tree_inv_def)
    from gt s1 have gt1: "g \<in> set_tree t1" by simp
    have lg1: "right (heap ?c g) = Some node" using ne pp lg by (simp add: L)
    note R = rotateLeft_links [OF wfc gt1 lg1]
    from rotateLeft_inv [OF tc gt1] lg1 obtain t2 where t2: "tree_inv ?s2 t2"
      and s2: "set_tree t2 = set_tree t1"
      and dn2: "depth node t2 = depth g t1" by blast
    from t2 have wf2: "wf_tree ?s2 t2" by (simp add: tree_inv_def)
    have "g \<notin> set_tree (sub p t)" using sub_depth_le [OF wf pt, of g] dp by auto
    with o1 gt have dg1: "depth g t1 = depth g t" by simp
    have rn: "left (heap s node) \<noteq> Some p"
      using wf_left_child [OF wf n, of p] pp ne by auto
    have "parent (heap ?s2 p) = Some node" using ne pp rn by (simp add: R L)
    moreover have "p \<in> set_tree t2" using pt s1 s2 by simp
    ultimately have "depth p t2 = Suc (depth node t2)"
      using wf_depth_parent [OF wf2] by simp
    with dn2 dg1 dn dp have "depth p t2 < depth node t" by simp
    with t1 t2 s1 s2 have "\<exists>t1 t2. tree_inv ?s1 t1 \<and> tree_inv ?s2 t2 \<and>
             set_tree t2 = set_tree t \<and> depth p t2 < depth node t" by auto
  }
  then show "left (heap s p) = Some node \<Longrightarrow>
           \<exists>t1 t2. tree_inv (rotateRight p s) t1 \<and>
             tree_inv (rotateLeft g (set_color g red (set_color p black (rotateRight p s)))) t2 \<and>
             set_tree t2 = set_tree t \<and> depth p t2 < depth node t" .
  {
    assume B: "left (heap s p) \<noteq> Some node"
    let ?c = "set_color g red (set_color p black s)"
    let ?s2 = "rotateLeft g ?c"
    from ti have tc: "tree_inv ?c t" by simp
    then have wfc: "wf_tree ?c t" by (simp add: tree_inv_def)
    have lgc: "right (heap ?c g) = Some p" using lg by simp
    note R = rotateLeft_links [OF wfc gt lgc]
    from rotateLeft_inv [OF tc gt] lgc obtain t2 where t2: "tree_inv ?s2 t2"
      and s2: "set_tree t2 = set_tree t"
      and dp2: "depth p t2 = depth g t" by blast
    from t2 have wf2: "wf_tree ?s2 t2" by (simp add: tree_inv_def)
    have "parent (heap ?s2 node) = Some p" using ne pn B by (simp add: R)
    moreover have "node \<in> set_tree t2" using n s2 by simp
    ultimately have "depth node t2 = Suc (depth p t2)"
      using wf_depth_parent [OF wf2] by simp
    with dp2 dn dp have "depth node t2 < depth node t" by simp
    with t2 s2 have "\<exists>t2. tree_inv ?s2 t2 \<and> set_tree t2 = set_tree t \<and>
        depth node t2 < depth node t" by auto
  }
  then show "left (heap s p) \<noteq> Some node \<Longrightarrow>
           \<exists>t2. tree_inv (rotateLeft g (set_color g red (set_color p black s))) t2 \<and>
             set_tree t2 = set_tree t \<and> depth node t2 < depth node t" .
qed

lemma fixInsert_rotate_right_side_inv:
  assumes I: "rec_inv st t" and n: "node \<in> set_tree t"
    and pn: "parent (heap (tree st) node) = Some p"
    and pp: "parent (heap (tree st) p) = Some g"
    and lg: "right (heap (tree st) g) = Some p"
  shows "\<exists>r. fixInsert_rotate_right_side node p g st = Some r \<and>
           (\<exists>node' st' t'. r = InsertAgain node' st' \<and> rec_inv st' t' \<and>
              set_tree t' = set_tree t \<and> node' \<in> set_tree t' \<and>
              depth node' t' < depth node t)"
proof -
  note ti = rec_inv_tree [OF I]
  from ti have wf: "wf_tree (tree st) t" by (simp add: tree_inv_def)
  from wf_depth_parent [OF wf n pn] have pt: "p \<in> set_tree t" by simp
  note T = rotate_right_side_tree [OF ti n pn pp lg]
  show ?thesis
  proof (cases "left (heap (tree st) p) = Some node")
    case True
    from T(1) [OF True] obtain t1 t2 where t1: "tree_inv (rotateRight p (tree st)) t1"
      and t2: "tree_inv (rotateLeft g (set_color g red (set_color p black
                 (rotateRight p (tree st))))) t2"
      and s2: "set_tree t2 = set_tree t" and d: "depth p t2 < depth node t" by blast
    have I1: "rec_inv (on_tree (rotateRight p) st) t1"
      using I t1 by (rule rec_inv_on_tree)
    show ?thesis
      unfolding fixInsert_rotate_right_side_def
      apply (simp add: True Let_def)
      apply (rule recordCompact_bind [OF I1])
      apply simp
      apply (rule recordCompact_bind [where t = t2])
       apply (rule rec_inv_on_tree [where t = t1])
        apply simp
       apply (simp add: t2)
      using s2 d pt apply auto
      done
  next
    case False
    from T(2) [OF False] obtain t2 where
      t2: "tree_inv (rotateLeft g (set_color g red (set_color p black (tree st)))) t2"
      and s2: "set_tree t2 = set_tree t" and d: "depth node t2 < depth node t" by blast
    show ?thesis
      unfolding fixInsert_rotate_right_side_def
      apply (simp add: False Let_def)
      apply (rule recordCompact_bind [where t = t2])
       apply (rule rec_inv_on_tree [where t = t])
        apply (simp add: I)
       apply (simp add: t2)
      using s2 d n apply auto
      done
  qed
qed

lemma fixInsert_body_inv:
  assumes I: "rec_inv st t" and n: "node \<in> set_tree t"
  shows "\<exists>r. fixInsert_body node st = Some r \<and> insert_post t node r"
proof (cases "parent (heap (tree st) node)")
  case None
  with I show ?thesis by (simp add: fixInsert_body_def)
next
  case pn: (Some p)
  note ti = rec_inv_tree [OF I]
  from ti have wf: "wf_tree (tree st) t" by (simp add: tree_inv_def)
  from wf_depth_parent [OF wf n pn] have pt: "p \<in> set_tree t"
    and dn: "depth node t = Suc (depth p t)" by simp_all
  show ?thesis
  proof (cases "parent (heap (tree st) p)")
    case None
    with I pn show ?thesis by (simp add: fixInsert_body_def)
  next
    case pp: (Some g)
    from wf_depth_parent [OF wf pt pp] have gt: "g \<in> set_tree t"
      and dp: "depth p t = Suc (depth g t)" by simp_all
    have rec: "\<exists>r. fixInsert_recolor p u g st = Some r \<and> insert_post t node r" for u
    proof -
      from fixInsert_recolor_inv [OF I, of p u g] obtain st' where
        r: "fixInsert_recolor p u g st = Some (InsertAgain g st')" and i: "rec_inv st' t"
        by blast
      from gt dn dp have "g \<in> set_tree t" "depth g t < depth node t" by simp_all
      with i have "insert_post t node (InsertAgain g st')"
        unfolding insert_post.simps by blast
      with r show ?thesis by blast
    qed
    show ?thesis
    proof (cases "left (heap (tree st) g) = Some p")
      case True
      have rot: "\<exists>r. fixInsert_rotate_left_side node p g st = Some r \<and> insert_post t node r"
      proof -
        from fixInsert_rotate_left_side_inv [OF I n pn pp True] obtain node' st' t' where
          r: "fixInsert_rotate_left_side node p g st = Some (InsertAgain node' st')"
          and i: "rec_inv st' t'" "set_tree t' = set_tree t" "node' \<in> set_tree t'"
            "depth node' t' < depth node t" by blast
        from i have "insert_post t node (InsertAgain node' st')"
          unfolding insert_post.simps by blast
        with r show ?thesis by blast
      qed
      show ?thesis
      proof (cases "right (heap (tree st) g)")
        case None
        with rot pn pp True show ?thesis by (simp add: fixInsert_body_def)
      next
        case (Some u)
        with rot rec [of u] pn pp True show ?thesis by (simp add: fixInsert_body_def)
      qed
    next
      case False
      with wf_parent [OF wf pt] pp have rg: "right (heap (tree st) g) = Some p" by auto
      have rot: "\<exists>r. fixInsert_rotate_right_side node p g st = Some r \<and> insert_post t node r"
      proof -
        from fixInsert_rotate_right_side_inv [OF I n pn pp rg] obtain node' st' t' where
          r: "fixInsert_rotate_right_side node p g st = Some (InsertAgain node' st')"
          and i: "rec_inv st' t'" "set_tree t' = set_tree t" "node' \<in> set_tree t'"
            "depth node' t' < depth node t" by blast
        from i have "insert_post t node (InsertAgain node' st')"
          unfolding insert_post.simps by blast
        with r show ?thesis by blast
      qed
      show ?thesis
      proof (cases "left (heap (tree st) g)")
        case None
        with rot pn pp False show ?thesis by (simp add: fixInsert_body_def)
      next
        case (Some u)
        with rot rec [of u] pn pp False show ?thesis by (simp add: fixInsert_body_def)
      qed
    qed
  qed
qed

lemma fixInsert_inv:
  "rec_inv st t \<Longrightarrow> node \<in> set_tree t \<Longrightarrow>
   \<exists>st' t'. fixInsert node st = Some st' \<and> rec_inv st' t' \<and> set_tree t' = set_tree t"
proof (induction "depth node t" arbitrary: node st t rule: less_induct)
  case less
  show ?case
  proof (cases "Some node \<noteq> root (tree st) \<and>
                is_red (tree st) (parent (heap (tree st) node))")
    case False
    with less.prems(1) show ?thesis by (subst fixInsert.simps) auto
  next
    case True
    from fixInsert_body_inv [OF less.prems] obtain r where
      b: "fixInsert_body node st = Some r" and post: "insert_post t node r" by blast
    show ?thesis
    proof (cases r)
      case (InsertBreak st')
      with b post True show ?thesis by (subst fixInsert.simps) auto
    next
      case (InsertAgain node' st1)
      with post obtain t1 where t1: "rec_inv st1 t1" "set_tree t1 = set_tree t"
        "node' \<in> set_tree t1" "depth node' t1 < depth node t" by auto
      from less.hyps [OF t1(4) t1(1) t1(3)] obtain st' t' where
        "fixInsert node' st1 = Some st'" "rec_inv st' t'" "set_tree t' = set_tree t1"
        by blast
      with b InsertAgain True t1(2) show ?thesis by (subst fixInsert.simps) auto
    qed
  qed
qed

lemma blackenRoot_inv:
  assumes "rec_inv st t"
  shows "\<exists>st'. blackenRoot st = Some st' \<and> rec_inv st' t"
proof (cases "root (tree st)")
  case None
  with assms show ?thesis by (simp add: blackenRoot_def)
next
  case (Some r)
  have "\<exists>y. (recordSnapshot KeepRootBlack [nid (heap (tree st) r)]
               (on_tree (set_color r black) st) \<bind> Some) = Some y \<and> rec_inv y t"
    by (rule recordSnapshot_bind [where t = t]) (use assms in simp_all)
  with Some show ?thesis by (simp add: blackenRoot_def)
qed

subsection \<open>Insert\<close>

lemma heap_tree_None [simp]: "heap_tree s par None t \<longleftrightarrow> t = Leaf"
  by (cases t) auto

lemma newNode_fields [simp]:
  "heap (newNode v s) b =
     (if b = nodeCounter s
      then \<lparr> nid = node_name (nodeCounter s), nvalue = v, color = red,
             left = None, right = None, parent = None \<rparr>
      else heap s b)"
  "root (newNode v s) = root s"
  "nodeCounter (newNode v s) = Suc (nodeCounter s)"
  by (simp_all add: newNode_def)

lemma named_fresh: "named s t \<Longrightarrow> nodeCounter s \<notin> set_tree t"
  by (auto simp: named_def)

lemma newNode_inv:
  assumes "tree_inv s t"
  shows "tree_inv (newNode v s) t"
proof -
  from assms have wf: "wf_tree s t" and nm: "named s t" by (simp_all add: tree_inv_def)
  from named_fresh [OF nm] have fr: "nodeCounter s \<notin> set_tree t" .
  from wf have "heap_tree s None (root s) t" by (simp add: wf_tree_def)
  then have "heap_tree (newNode v s) None (root s) t"
    by (rule heap_tree_frame) (use fr in auto)
  with wf have "wf_tree (newNode v s) t" by (simp add: wf_tree_def)
  moreover from nm fr have "named (newNode v s) t" by (auto simp: named_def)
  ultimately show ?thesis by (simp add: tree_inv_def)
qed

lemma descend_heap_tree:
  "heap_tree s par0 p t \<Longrightarrow>
   \<exists>res. descend par p s v = Some res \<and>
     (if t = Leaf then res = par
      else \<exists>q \<in> set_tree t. res = Some q \<and>
             (if v < nvalue (heap s q) then left (heap s q) = None
              else right (heap s q) = None))"
proof (induction t arbitrary: par0 p par)
  case Leaf
  then show ?case by (simp add: descend.simps)
next
  case (Node l a r)
  from Node.prems have p: "p = Some a"
    and l: "heap_tree s (Some a) (left (heap s a)) l"
    and r: "heap_tree s (Some a) (right (heap s a)) r" by simp_all
  show ?case
  proof (cases "v < nvalue (heap s a)")
    case True
    from Node.IH(1) [OF l, of "Some a"] obtain res where
      d: "descend (Some a) (left (heap s a)) s v = Some res"
      and c: "if l = Leaf then res = Some a
              else \<exists>q \<in> set_tree l. res = Some q \<and>
                 (if v < nvalue (heap s q) then left (heap s q) = None
                  else right (heap s q) = None)" by blast
    have "\<exists>q \<in> set_tree (Node l a r). res = Some q \<and>
             (if v < nvalue (heap s q) then left (heap s q) = None
              else right (heap s q) = None)"
    proof (cases l)
      case Leaf
      with c l True show ?thesis by simp
    next
      case (Node l1 b l2)
      with c show ?thesis by auto
    qed
    with d p True show ?thesis by (subst descend.simps) simp
  next
    case False
    from Node.IH(2) [OF r, of "Some a"] obtain res where
      d: "descend (Some a) (right (heap s a)) s v = Some res"
      and c: "if r = Leaf then res = Some a
              else \<exists>q \<in> set_tree r. res = Some q \<and>
                 (if v < nvalue (heap s q) then left (heap s q) = None
                  else right (heap s q) = None)" by blast
    have "\<exists>q \<in> set_tree (Node l a r). res = Some q \<and>
             (if v < nvalue (heap s q) then left (heap s q) = None
              else right (heap s q) = None)"
    proof (cases r)
      case Leaf
      with c r False show ?thesis by simp
    next
      case (Node r1 b r2)
      with c show ?thesis by auto
    qed
    with d p False show ?thesis by (subst descend.simps) simp
  qed
qed

text \<open>Hanging the new node \<open>a\<close> into an empty child slot of \<open>p\<close>.\<close>

lemma attach_left_tree:
  assumes ti: "tree_inv s t" and p: "p \<in> set_tree t" and a: "a \<notin> set_tree t"
    and an: "a < nodeCounter s" "nid (heap s a) = node_name a"
    and al: "left (heap s a) = None" "right (heap s a) = None"
    and pl: "left (heap s p) = None"
  shows "\<exists>t'. tree_inv (set_left p (Some a) (set_parent a (Some p) s)) t' \<and>
           set_tree t' = insert a (set_tree t)"
proof -
  let ?s' = "set_left p (Some a) (set_parent a (Some p) s)"
  from ti have wf: "wf_tree s t" and nm: "named s t" by (simp_all add: tree_inv_def)
  from wf have h: "heap_tree s None (root s) t" and d: "distinct (preorder t)"
    by (simp_all add: wf_tree_def)
  from p a have pa: "p \<noteq> a" by auto
  from sub_root [OF p] obtain L R where su: "sub p t = Node L p R" by blast
  from heap_tree_sub [OF h p] su pl have L: "L = Leaf"
    and hR: "heap_tree s (Some p) (right (heap s p)) R" by simp_all
  from set_tree_sub [of p t] su a have aR: "a \<notin> set_tree R" by auto
  from distinct_sub [OF d, of p] su have pR: "p \<notin> set_tree R" and dR: "distinct (preorder R)"
    by auto
  let ?u = "Node (Node Leaf a Leaf) p R"
  have fR: "heap_tree ?s' (Some p) (right (heap s p)) R"
    using hR by (rule heap_tree_frame) (use aR pR in auto)
  have U: "heap_tree ?s' (parent (heap s p)) (Some p) ?u"
    using fR pa al by simp
  have du: "distinct (preorder ?u)" using aR pR dR pa by auto
  have disj: "set_tree ?u \<inter> (set_tree t - set_tree (sub p t)) = {}"
    using su L a by auto
  have K: "\<And>b. b \<in> set_tree t \<Longrightarrow> b \<notin> set_tree (sub p t) \<Longrightarrow> kept s ?s' p (Some p) b"
    using su a by (auto simp: kept_def)
  have rt: "root ?s' = (if root s = Some p then Some p else root s)" by simp
  from wf_replace(1,2) [OF wf p U du disj K rt] su L set_tree_sub [of p t]
  have w: "wf_tree ?s' (replace p ?u t)"
    and st: "set_tree (replace p ?u t) = insert a (set_tree t)" by auto
  from nm an st have "named ?s' (replace p ?u t)" by (auto simp: named_def)
  with w st show ?thesis unfolding tree_inv_def by blast
qed

lemma attach_right_tree:
  assumes ti: "tree_inv s t" and p: "p \<in> set_tree t" and a: "a \<notin> set_tree t"
    and an: "a < nodeCounter s" "nid (heap s a) = node_name a"
    and al: "left (heap s a) = None" "right (heap s a) = None"
    and pr: "right (heap s p) = None"
  shows "\<exists>t'. tree_inv (set_right p (Some a) (set_parent a (Some p) s)) t' \<and>
           set_tree t' = insert a (set_tree t)"
proof -
  let ?s' = "set_right p (Some a) (set_parent a (Some p) s)"
  from ti have wf: "wf_tree s t" and nm: "named s t" by (simp_all add: tree_inv_def)
  from wf have h: "heap_tree s None (root s) t" and d: "distinct (preorder t)"
    by (simp_all add: wf_tree_def)
  from p a have pa: "p \<noteq> a" by auto
  from sub_root [OF p] obtain L R where su: "sub p t = Node L p R" by blast
  from heap_tree_sub [OF h p] su pr have R: "R = Leaf"
    and hL: "heap_tree s (Some p) (left (heap s p)) L" by simp_all
  from set_tree_sub [of p t] su a have aL: "a \<notin> set_tree L" by auto
  from distinct_sub [OF d, of p] su have pL: "p \<notin> set_tree L" and dL: "distinct (preorder L)"
    by auto
  let ?u = "Node L p (Node Leaf a Leaf)"
  have fL: "heap_tree ?s' (Some p) (left (heap s p)) L"
    using hL by (rule heap_tree_frame) (use aL pL in auto)
  have U: "heap_tree ?s' (parent (heap s p)) (Some p) ?u"
    using fL pa al by simp
  have du: "distinct (preorder ?u)" using aL pL dL pa by auto
  have disj: "set_tree ?u \<inter> (set_tree t - set_tree (sub p t)) = {}"
    using su R a by auto
  have K: "\<And>b. b \<in> set_tree t \<Longrightarrow> b \<notin> set_tree (sub p t) \<Longrightarrow> kept s ?s' p (Some p) b"
    using su a by (auto simp: kept_def)
  have rt: "root ?s' = (if root s = Some p then Some p else root s)" by simp
  from wf_replace(1,2) [OF wf p U du disj K rt] su R set_tree_sub [of p t]
  have w: "wf_tree ?s' (replace p ?u t)"
    and st: "set_tree (replace p ?u t) = insert a (set_tree t)" by auto
  from nm an st have "named ?s' (replace p ?u t)" by (auto simp: named_def)
  with w st show ?thesis unfolding tree_inv_def by blast
qed

lemma attach_root_tree:
  assumes an: "a < nodeCounter s" "nid (heap s a) = node_name a"
    and al: "left (heap s a) = None" "right (heap s a) = None"
  shows "tree_inv ((set_parent a None s)\<lparr>root := Some a\<rparr>) (Node Leaf a Leaf)"
  using assms by (simp add: tree_inv_def wf_tree_def named_def)


lemma rec_inv_change:
  "rec_inv st t \<Longrightarrow> snaps st' = snaps st \<Longrightarrow> tree_inv (tree st') t' \<Longrightarrow> rec_inv st' t'"
  by (simp add: rec_inv_def)

lemma attach_inv:
  assumes I: "rec_inv st t" and a: "a \<notin> set_tree t"
    and an: "a < nodeCounter (tree st)" "nid (heap (tree st) a) = node_name a"
    and al: "left (heap (tree st) a) = None" "right (heap (tree st) a) = None"
    and par: "if t = Leaf then par = None
              else \<exists>q \<in> set_tree t. par = Some q \<and>
                     (if v < nvalue (heap (tree st) q) then left (heap (tree st) q) = None
                      else right (heap (tree st) q) = None)"
  shows "\<exists>st' t'. attach v a par st = Some st' \<and> rec_inv st' t' \<and> a \<in> set_tree t'"
proof (cases "t = Leaf")
  case True
  with par have p: "par = None" by simp
  let ?st2 = "on_tree (\<lambda>s. s\<lparr>root := Some a\<rparr>) (on_tree (set_parent a None) st)"
  from attach_root_tree [OF an al]
  have "tree_inv (tree ?st2) (Node Leaf a Leaf)" by simp
  then have "rec_inv ?st2 (Node Leaf a Leaf)" by (intro rec_inv_change [OF I]) simp_all
  from recordSnapshot_inv [OF this] p show ?thesis
    by (fastforce simp: attach_def Let_def)
next
  case False
  with par obtain q where q: "q \<in> set_tree t" and p: "par = Some q"
    and slot: "if v < nvalue (heap (tree st) q) then left (heap (tree st) q) = None
               else right (heap (tree st) q) = None" by auto
  note ti = rec_inv_tree [OF I]
  show ?thesis
  proof (cases "v < nvalue (heap (tree st) q)")
    case True
    with slot have ql: "left (heap (tree st) q) = None" by simp
    let ?st2 = "on_tree (set_left q (Some a)) (on_tree (set_parent a (Some q)) st)"
    from attach_left_tree [OF ti q a an al ql] obtain t' where
      t': "tree_inv (set_left q (Some a) (set_parent a (Some q) (tree st))) t'"
      and s': "set_tree t' = insert a (set_tree t)" by blast
    from t' have "tree_inv (tree ?st2) t'" by simp
    then have "rec_inv ?st2 t'" by (intro rec_inv_change [OF I]) simp_all
    from recordSnapshot_inv [OF this] p True s' show ?thesis
      by (fastforce simp: attach_def Let_def)
  next
    case False
    with slot have qr: "right (heap (tree st) q) = None" by simp
    let ?st2 = "on_tree (set_right q (Some a)) (on_tree (set_parent a (Some q)) st)"
    from attach_right_tree [OF ti q a an al qr] obtain t' where
      t': "tree_inv (set_right q (Some a) (set_parent a (Some q) (tree st))) t'"
      and s': "set_tree t' = insert a (set_tree t)" by blast
    from t' have "tree_inv (tree ?st2) t'" by simp
    then have "rec_inv ?st2 t'" by (intro rec_inv_change [OF I]) simp_all
    from recordSnapshot_inv [OF this] p False s' show ?thesis
      by (fastforce simp: attach_def Let_def)
  qed
qed

lemma startRecording_inv:
  assumes "tree_inv s t"
  shows "\<exists>st0. startRecording s = Some st0 \<and> tree st0 = s \<and> snaps st0 = [] \<and> rec_inv st0 t"
proof -
  from assms have "wf_tree s t" by (simp add: tree_inv_def)
  from serializeTree_wf [OF this] assms show ?thesis
    by (simp add: startRecording_def rec_inv_def)
qed

theorem rb_insert_inv:
  assumes ti: "tree_inv s t"
  shows "\<exists>s' r t'. rb_insert v s = Some (s', r) \<and> tree_inv s' t' \<and>
           (\<forall>sn \<in> set (snapshots r). good_export (nodes sn))"
proof -
  from ti have wf: "wf_tree s t" and nm: "named s t" by (simp_all add: tree_inv_def)
  from startRecording_inv [OF ti] obtain st0 where
    s0: "startRecording s = Some st0" and ts0: "tree st0 = s" and I0: "rec_inv st0 t" by blast
  from rb_find_wf [OF wf, of v] obtain existing where f: "rb_find s v = Some existing" by blast
  show ?thesis
  proof (cases existing)
    case (Some e)
    from recordSnapshot_inv [OF I0, of "AlreadyInTree v" "[nid (heap s e)]"] obtain st1 where
      "recordSnapshot (AlreadyInTree v) [nid (heap s e)] st0 = Some st1" "rec_inv st1 t" by blast
    with s0 f Some show ?thesis
      by (auto simp: rb_insert_def rec_inv_def)
  next
    case None
    let ?a = "nodeCounter s"
    let ?st1 = "on_tree (newNode v) st0"
    from newNode_inv [OF ti, of v] I0 ts0 have I1: "rec_inv ?st1 t"
      by (auto intro: rec_inv_on_tree)
    have ts1: "tree ?st1 = newNode v s" using ts0 by simp
    from wf have "heap_tree (newNode v s) None (root (newNode v s)) t"
      using newNode_inv [OF ti, of v] by (simp add: tree_inv_def wf_tree_def)
    from descend_heap_tree [OF this, of None v] obtain par where
      d: "descend None (root (newNode v s)) (newNode v s) v = Some par"
      and pc: "if t = Leaf then par = None
               else \<exists>q \<in> set_tree t. par = Some q \<and>
                 (if v < nvalue (heap (newNode v s) q) then left (heap (newNode v s) q) = None
                  else right (heap (newNode v s) q) = None)" by blast
    from named_fresh [OF nm] have fr: "?a \<notin> set_tree t" .
    have an1: "?a < nodeCounter (tree ?st1)" "nid (heap (tree ?st1) ?a) = node_name ?a"
      "left (heap (tree ?st1) ?a) = None" "right (heap (tree ?st1) ?a) = None"
      by (simp_all add: ts0)
    have pc1: "if t = Leaf then par = None
               else \<exists>q \<in> set_tree t. par = Some q \<and>
                 (if v < nvalue (heap (tree ?st1) q) then left (heap (tree ?st1) q) = None
                  else right (heap (tree ?st1) q) = None)"
      using pc unfolding ts1 .
    have "\<exists>st' t'. attach v ?a par ?st1 = Some st' \<and> rec_inv st' t' \<and> ?a \<in> set_tree t'"
      using I1 fr an1 pc1 by (rule attach_inv)
    then obtain st2 t2 where at: "attach v ?a par ?st1 = Some st2"
      and I2: "rec_inv st2 t2" and a2: "?a \<in> set_tree t2" by blast
    from fixInsert_inv [OF I2 a2] obtain st3 t3 where
      fi: "fixInsert ?a st2 = Some st3" and I3: "rec_inv st3 t3" by blast
    from blackenRoot_inv [OF I3] obtain st4 where
      b: "blackenRoot st3 = Some st4" and I4: "rec_inv st4 t3" by blast
    from s0 f None d at fi b ts0 ts1 I4 show ?thesis
      by (auto simp: rb_insert_def Let_def rec_inv_def)
  qed
qed

subsection \<open>Transplant\<close>

lemma transplant_fields:
  "left (heap (transplant u v s) a) =
     (if Some a = parent (heap s u) \<and> left (heap s a) = Some u then v else left (heap s a))"
  "right (heap (transplant u v s) a) =
     (if Some a = parent (heap s u) \<and> left (heap s a) \<noteq> Some u then v else right (heap s a))"
  "parent (heap (transplant u v s) a) =
     (if Some a = v then parent (heap s u) else parent (heap s a))"
  "root (transplant u v s) = (if parent (heap s u) = None then v else root s)"
  "nid (heap (transplant u v s) a) = nid (heap s a)"
  "nvalue (heap (transplant u v s) a) = nvalue (heap s a)"
  "color (heap (transplant u v s) a) = color (heap s a)"
  "nodeCounter (transplant u v s) = nodeCounter s"
  by (auto simp: transplant_def Let_def split: option.splits)

text \<open>
  A store that redirects the child link of the parent of \<open>x\<close> the way \<open>transplant\<close> and
  the rotations do keeps every node outside the subtree of \<open>x\<close>.
\<close>

lemma kept_redirect:
  assumes wf: "wf_tree s t" and x: "x \<in> set_tree t" and b: "b \<in> set_tree t" and bx: "b \<noteq> x"
    and pb: "parent (heap s' b) = parent (heap s b)"
    and lb: "left (heap s' b) =
       (if Some b = parent (heap s x) \<and> left (heap s b) = Some x then q else left (heap s b))"
    and rb: "right (heap s' b) =
       (if Some b = parent (heap s x) \<and> left (heap s b) \<noteq> Some x then q else right (heap s b))"
  shows "kept s s' x q b"
proof -
  have l: "left (heap s b) = Some x \<Longrightarrow> parent (heap s x) = Some b"
    using wf_left_child [OF wf b] by simp
  have r: "right (heap s b) = Some x \<Longrightarrow> parent (heap s x) = Some b"
    using wf_right_child [OF wf b] by simp
  have lr: "left (heap s b) = Some x \<Longrightarrow> right (heap s b) \<noteq> Some x"
    using wf_children_differ [OF wf b] by simp
  have ch: "parent (heap s x) = Some b \<Longrightarrow>
      left (heap s b) = Some x \<or> right (heap s b) = Some x"
    using wf_parent [OF wf x] by auto
  have k2: "left (heap s' b) = (if left (heap s b) = Some x then q else left (heap s b))"
  proof (cases "left (heap s b) = Some x")
    case True
    with l show ?thesis by (simp add: lb)
  next
    case False
    then show ?thesis by (simp add: lb)
  qed
  have k3: "right (heap s' b) = (if right (heap s b) = Some x then q else right (heap s b))"
  proof (cases "right (heap s b) = Some x")
    case True
    with r lr show ?thesis by (auto simp: rb)
  next
    case False
    show ?thesis
    proof (cases "parent (heap s x) = Some b")
      case True
      with ch False have "left (heap s b) = Some x" by simp
      with False show ?thesis by (simp add: rb)
    next
      case nb: False
      then have "Some b \<noteq> parent (heap s x)" by auto
      with False show ?thesis by (simp add: rb)
    qed
  qed
  show ?thesis unfolding kept_def using pb k2 k3 by simp
qed

text \<open>Splicing out a node \<open>z\<close> that has at most one child \<open>v\<close>.\<close>

lemma splice_tree:
  assumes ti: "tree_inv s t" and z: "z \<in> set_tree t"
    and one: "(left (heap s z) = None \<and> v = right (heap s z)) \<or>
              (right (heap s z) = None \<and> v = left (heap s z))"
  obtains t' where "tree_inv (transplant z v s) t'" and "set_tree t' = set_tree t - {z}"
    and "\<And>c. v = Some c \<Longrightarrow> c \<in> set_tree t'"
    and "parent (heap s z) = None \<Longrightarrow> v = None \<Longrightarrow> t' = Leaf"
proof -
  let ?s' = "transplant z v s"
  note F = transplant_fields [of z v s]
  from ti have wf: "wf_tree s t" and nm: "named s t" by (simp_all add: tree_inv_def)
  from wf have h: "heap_tree s None (root s) t" and d: "distinct (preorder t)"
    by (simp_all add: wf_tree_def)
  from sub_root [OF z] obtain L R where su: "sub z t = Node L z R" by blast
  from heap_tree_sub [OF h z] su
  have hL: "heap_tree s (Some z) (left (heap s z)) L"
    and hR: "heap_tree s (Some z) (right (heap s z)) R" by simp_all
  from distinct_sub [OF d, of z] su have ds: "distinct (preorder (Node L z R))" by simp
  define V where "V = (if left (heap s z) = None then R else L)"
  from one hL hR have hV: "heap_tree s (Some z) v V"
    and empty: "(if left (heap s z) = None then L else R) = Leaf"
    by (auto simp: V_def)
  from empty have subset: "set_tree (sub z t) = insert z (set_tree V)"
    using su by (auto simp: V_def split: if_splits)
  from ds have zV: "z \<notin> set_tree V" and dV: "distinct (preorder V)" by (auto simp: V_def)
  have pout: "\<And>p. parent (heap s z) = Some p \<Longrightarrow> p \<notin> set_tree (sub z t)"
    using wf_parent_outside [OF wf z] by blast
  have vV: "\<And>c. v = Some c \<Longrightarrow> c \<in> set_tree V" using hV by (auto dest: heap_tree_Some)
  have U: "heap_tree ?s' (parent (heap s z)) v V"
    using hV dV
  proof (rule heap_tree_reparent)
    fix a assume a: "a \<in> set_tree V"
    with subset pout have "Some a \<noteq> parent (heap s z)" by auto
    then show "left (heap ?s' a) = left (heap s a) \<and> right (heap ?s' a) = right (heap s a) \<and>
        (Some a \<noteq> v \<longrightarrow> parent (heap ?s' a) = parent (heap s a))"
      by (simp add: F)
  next
    fix a assume "v = Some a"
    then show "parent (heap ?s' a) = parent (heap s z)" by (simp add: transplant_fields)
  qed
  have disj: "set_tree V \<inter> (set_tree t - set_tree (sub z t)) = {}" using subset by auto
  have K: "\<And>b. b \<in> set_tree t \<Longrightarrow> b \<notin> set_tree (sub z t) \<Longrightarrow> kept s ?s' z v b"
  proof -
    fix b assume b: "b \<in> set_tree t" and bo: "b \<notin> set_tree (sub z t)"
    with subset have bz: "b \<noteq> z" and bV: "b \<notin> set_tree V" by auto
    with vV have "Some b \<noteq> v" by auto
    then show "kept s ?s' z v b"
      by (intro kept_redirect [OF wf z b bz]) (simp_all add: F)
  qed
  have rt: "root ?s' = (if root s = Some z then v else root s)"
    using wf_root_iff [OF wf z] by (simp add: F)
  have w: "wf_tree ?s' (replace z V t)" by (rule wf_replace(1) [OF wf z U dV disj K rt])
  have st0: "set_tree (replace z V t) = (set_tree t - set_tree (sub z t)) \<union> set_tree V"
    by (rule wf_replace(2) [OF wf z U dV disj K rt])
  have Vt: "set_tree V \<subseteq> set_tree t" using set_tree_sub [of z t] subset by blast
  have st: "set_tree (replace z V t) = set_tree t - {z}"
    unfolding st0 subset using Vt zV by blast
  from nm have "named ?s' (replace z V t)" unfolding named_def st by (simp add: F)
  with w have ti': "tree_inv ?s' (replace z V t)" by (simp add: tree_inv_def)
  have c: "\<And>c. v = Some c \<Longrightarrow> c \<in> set_tree (replace z V t)"
    unfolding st using vV zV Vt by blast
  have e: "parent (heap s z) = None \<Longrightarrow> v = None \<Longrightarrow> replace z V t = Leaf"
  proof -
    assume "parent (heap s z) = None" and vn: "v = None"
    with wf_root_iff [OF wf z] have "root s = Some z" by simp
    with h obtain l r where "t = Node l z r" by (cases t) auto
    then have rV: "replace z V t = V" by simp
    from hV vn have "V = Leaf" by simp
    with rV show "replace z V t = Leaf" by simp
  qed
  from ti' st c e show ?thesis by (rule that)
qed

subsection \<open>Deleting a node with at most one child\<close>

lemma splice_position:
  assumes ti: "tree_inv s t" and z: "z \<in> set_tree t"
    and one: "(left (heap s z) = None \<and> v = right (heap s z)) \<or>
              (right (heap s z) = None \<and> v = left (heap s z))"
  shows "\<exists>t'. tree_inv (transplant z v s) t' \<and>
           fix_position (transplant z v s) t' v (parent (heap s z))"
proof -
  from ti have wf: "wf_tree s t" by (simp add: tree_inv_def)
  obtain t' where
    ti': "tree_inv (transplant z v s) t'" and st: "set_tree t' = set_tree t - {z}"
    and c: "\<And>c. v = Some c \<Longrightarrow> c \<in> set_tree t'"
    and e: "parent (heap s z) = None \<Longrightarrow> v = None \<Longrightarrow> t' = Leaf"
    by (erule splice_tree [OF ti z one])
  have "fix_position (transplant z v s) t' v (parent (heap s z))"
  proof (cases v)
    case (Some c)
    with c show ?thesis by (simp add: fix_position_def transplant_fields)
  next
    case None
    show ?thesis
    proof (cases "parent (heap s z)")
      case pn: None
      with e None show ?thesis by (simp add: fix_position_def)
    next
      case (Some p)
      from wf_parent_outside(1,3) [OF wf z Some] st have "p \<in> set_tree t'" by simp
      with None Some show ?thesis by (simp add: fix_position_def)
    qed
  qed
  with ti' show ?thesis by (intro exI [of _ t'] conjI)
qed

lemma delete_no_left_inv:
  assumes I: "rec_inv st t" and z: "z \<in> set_tree t" and l: "left (heap (tree st) z) = None"
  shows "\<exists>r. delete_no_left v z st = Some r \<and>
           (case r of (c, x, xParent, st') \<Rightarrow>
              \<exists>t'. rec_inv st' t' \<and> fix_position (tree st') t' x xParent)"
proof -
  from l have one: "(left (heap (tree st) z) = None \<and>
        right (heap (tree st) z) = right (heap (tree st) z)) \<or>
      (right (heap (tree st) z) = None \<and> right (heap (tree st) z) = left (heap (tree st) z))"
    by simp
  from splice_position [OF rec_inv_tree [OF I] z one]
  obtain t' where ti': "tree_inv (transplant z (right (heap (tree st) z)) (tree st)) t'"
    and fp: "fix_position (transplant z (right (heap (tree st) z)) (tree st)) t'
               (right (heap (tree st) z)) (parent (heap (tree st) z))" by blast
  from I ti' have I1: "rec_inv (on_tree (transplant z (right (heap (tree st) z))) st) t'"
    by (rule rec_inv_on_tree)
  show ?thesis
    unfolding delete_no_left_def Let_def
  proof (rule recordCompact_bind [OF I1])
    fix st' assume ts: "tree st' = tree (on_tree (transplant z (right (heap (tree st) z))) st)"
      and I': "rec_inv st' t'"
    from fp ts have "fix_position (tree st') t' (right (heap (tree st) z))
        (parent (heap (tree st) z))" by simp
    with I' have "\<exists>t'. rec_inv st' t' \<and> fix_position (tree st') t'
        (right (heap (tree st) z)) (parent (heap (tree st) z))" by (intro exI [of _ t'] conjI)
    then show "\<exists>y. Some (color (heap (tree st) z), right (heap (tree st) z),
        parent (heap (tree st) z), st') = Some y \<and>
        (case y of (c, x, xParent, st') \<Rightarrow>
           \<exists>t'. rec_inv st' t' \<and> fix_position (tree st') t' x xParent)"
      by simp
  qed
qed

lemma delete_no_right_inv:
  assumes I: "rec_inv st t" and z: "z \<in> set_tree t" and r: "right (heap (tree st) z) = None"
  shows "\<exists>r. delete_no_right v z st = Some r \<and>
           (case r of (c, x, xParent, st') \<Rightarrow>
              \<exists>t'. rec_inv st' t' \<and> fix_position (tree st') t' x xParent)"
proof -
  from r have one: "(left (heap (tree st) z) = None \<and>
        left (heap (tree st) z) = right (heap (tree st) z)) \<or>
      (right (heap (tree st) z) = None \<and> left (heap (tree st) z) = left (heap (tree st) z))"
    by simp
  from splice_position [OF rec_inv_tree [OF I] z one]
  obtain t' where ti': "tree_inv (transplant z (left (heap (tree st) z)) (tree st)) t'"
    and fp: "fix_position (transplant z (left (heap (tree st) z)) (tree st)) t'
               (left (heap (tree st) z)) (parent (heap (tree st) z))" by blast
  from I ti' have I1: "rec_inv (on_tree (transplant z (left (heap (tree st) z))) st) t'"
    by (rule rec_inv_on_tree)
  show ?thesis
    unfolding delete_no_right_def Let_def
  proof (rule recordCompact_bind [OF I1])
    fix st' assume ts: "tree st' = tree (on_tree (transplant z (left (heap (tree st) z))) st)"
      and I': "rec_inv st' t'"
    from fp ts have "fix_position (tree st') t' (left (heap (tree st) z))
        (parent (heap (tree st) z))" by simp
    with I' have "\<exists>t'. rec_inv st' t' \<and> fix_position (tree st') t'
        (left (heap (tree st) z)) (parent (heap (tree st) z))" by (intro exI [of _ t'] conjI)
    then show "\<exists>y. Some (color (heap (tree st) z), left (heap (tree st) z),
        parent (heap (tree st) z), st') = Some y \<and>
        (case y of (c, x, xParent, st') \<Rightarrow>
           \<exists>t'. rec_inv st' t' \<and> fix_position (tree st') t' x xParent)"
      by simp
  qed
qed

subsection \<open>Deleting a node with two children\<close>

lemma minimum_heap_tree:
  "heap_tree s par (Some a) t \<Longrightarrow>
   \<exists>y \<in> set_tree t. minimum s a = Some y \<and> left (heap s y) = None"
proof (induction t arbitrary: par a)
  case Leaf
  then show ?case by simp
next
  case (Node l b r)
  from Node.prems have ab: "a = b" and hl: "heap_tree s (Some a) (left (heap s a)) l"
    by simp_all
  show ?case
  proof (cases "left (heap s a)")
    case None
    with ab show ?thesis by (subst minimum.simps) simp
  next
    case (Some c)
    from Node.IH(1) [of "Some a" c] hl Some
    obtain y where "y \<in> set_tree l" "minimum s c = Some y" "left (heap s y) = None" by auto
    with Some show ?thesis by (subst minimum.simps) simp
  qed
qed

text \<open>
  The successor \<open>y\<close> takes the place of \<open>z\<close>: it gets the left subtree of \<open>z\<close>, the
  parent of \<open>z\<close>, and on its right a tree \<open>R'\<close> made of nodes that were below \<open>z\<close> on the
  right.
\<close>

lemma substitute_tree:
  assumes wf: "wf_tree s t" and z: "z \<in> set_tree t" and su: "sub z t = Node L z R"
    and hR: "heap_tree s par' ry R'" and dR: "distinct (preorder R')"
    and sR: "set_tree R' \<subseteq> set_tree R"
    and yz: "y \<noteq> z" and yL: "y \<notin> set_tree L" and yR: "y \<notin> set_tree R'"
    and yo: "y \<notin> set_tree t - set_tree (sub z t)"
    and lf: "\<And>a. left (heap s' a) =
       (if a = y then left (heap s z)
        else if Some a = parent (heap s z) \<and> left (heap s a) = Some z then Some y
        else left (heap s a))"
    and rf: "\<And>a. right (heap s' a) =
       (if a = y then ry
        else if Some a = parent (heap s z) \<and> left (heap s a) \<noteq> Some z then Some y
        else right (heap s a))"
    and pf: "\<And>a. parent (heap s' a) =
       (if Some a = left (heap s z) then Some y
        else if a = y then parent (heap s z)
        else if Some a = ry then Some y
        else parent (heap s a))"
    and rootf: "root s' = (if parent (heap s z) = None then Some y else root s)"
  obtains t' where "wf_tree s' t'"
    and "set_tree t' = (set_tree t - set_tree (sub z t)) \<union> (set_tree L \<union> {y} \<union> set_tree R')"
proof -
  from wf have h: "heap_tree s None (root s) t" and d: "distinct (preorder t)"
    by (simp_all add: wf_tree_def)
  from heap_tree_sub [OF h z] su
  have hL: "heap_tree s (Some z) (left (heap s z)) L" by simp
  from distinct_sub [OF d, of z] su have ds: "distinct (preorder (Node L z R))" by simp
  then have dL: "distinct (preorder L)" and LR: "set_tree L \<inter> set_tree R = {}"
    and zL: "z \<notin> set_tree L" and zR: "z \<notin> set_tree R" by auto
  have pout: "\<And>a. a \<in> set_tree (sub z t) \<Longrightarrow> Some a \<noteq> parent (heap s z)"
    using wf_parent_outside(2) [OF wf z] by metis
  have lz: "\<And>a. left (heap s z) = Some a \<Longrightarrow> a \<in> set_tree L"
    using hL by (auto dest: heap_tree_Some)
  have ryR: "\<And>a. ry = Some a \<Longrightarrow> a \<in> set_tree R'"
    using hR by (auto dest: heap_tree_Some)
  have lz': "\<And>a. Some a = left (heap s z) \<Longrightarrow> a \<in> set_tree L"
    using lz by simp
  have ryR': "\<And>a. Some a = ry \<Longrightarrow> a \<in> set_tree R'"
    using ryR by simp
  let ?u = "Node L y R'"
  have UL: "heap_tree s' (Some y) (left (heap s z)) L"
    using hL dL
  proof (rule heap_tree_reparent)
    fix a assume a: "a \<in> set_tree L"
    with yL have ay: "a \<noteq> y" by auto
    from a su have "a \<in> set_tree (sub z t)" by simp
    from pout [OF this] have ap: "Some a \<noteq> parent (heap s z)" .
    from a LR sR ryR' have ar: "Some a \<noteq> ry" by auto
    from ay ap ar
    show "left (heap s' a) = left (heap s a) \<and> right (heap s' a) = right (heap s a) \<and>
        (Some a \<noteq> left (heap s z) \<longrightarrow> parent (heap s' a) = parent (heap s a))"
      by (simp add: lf rf pf)
  next
    fix a assume "left (heap s z) = Some a"
    then show "parent (heap s' a) = Some y" by (simp add: pf)
  qed
  have UR: "heap_tree s' (Some y) ry R'"
    using hR dR
  proof (rule heap_tree_reparent)
    fix a assume a: "a \<in> set_tree R'"
    with yR have ay: "a \<noteq> y" by auto
    from a sR su have "a \<in> set_tree (sub z t)" by auto
    from pout [OF this] have ap: "Some a \<noteq> parent (heap s z)" .
    from a sR LR lz' have al: "Some a \<noteq> left (heap s z)" by auto
    from ay ap al
    show "left (heap s' a) = left (heap s a) \<and> right (heap s' a) = right (heap s a) \<and>
        (Some a \<noteq> ry \<longrightarrow> parent (heap s' a) = parent (heap s a))"
      by (simp add: lf rf pf)
  next
    fix a assume a: "ry = Some a"
    from ryR [OF a] sR LR lz' have "Some a \<noteq> left (heap s z)" by auto
    moreover from ryR [OF a] yR have "a \<noteq> y" by auto
    ultimately show "parent (heap s' a) = Some y" using a by (simp add: pf)
  qed
  have yl: "Some y \<noteq> left (heap s z)" using lz' yL by auto
  have U: "heap_tree s' (parent (heap s z)) (Some y) ?u"
    using UL UR yl by (simp add: lf rf pf)
  have du: "distinct (preorder ?u)" using dL dR yL yR LR sR by auto
  have disj: "set_tree ?u \<inter> (set_tree t - set_tree (sub z t)) = {}"
    using yo sR su by auto
  have K: "\<And>b. b \<in> set_tree t \<Longrightarrow> b \<notin> set_tree (sub z t) \<Longrightarrow> kept s s' z (Some y) b"
  proof -
    fix b assume b: "b \<in> set_tree t" and bo: "b \<notin> set_tree (sub z t)"
    from bo su have bz: "b \<noteq> z" by auto
    from b bo yo have b_y: "b \<noteq> y" by auto
    from bo su lz' have bl: "Some b \<noteq> left (heap s z)" by auto
    from bo su sR ryR' have br: "Some b \<noteq> ry" by auto
    from b_y bl br show "kept s s' z (Some y) b"
      by (intro kept_redirect [OF wf z b bz]) (simp_all add: lf rf pf)
  qed
  have rt: "root s' = (if root s = Some z then Some y else root s)"
    using wf_root_iff [OF wf z] by (simp add: rootf)
  have w: "wf_tree s' (replace z ?u t)" by (rule wf_replace(1) [OF wf z U du disj K rt])
  have st: "set_tree (replace z ?u t) = (set_tree t - set_tree (sub z t)) \<union> set_tree ?u"
    by (rule wf_replace(2) [OF wf z U du disj K rt])
  have "set_tree ?u = set_tree L \<union> {y} \<union> set_tree R'" by auto
  with st have st': "set_tree (replace z ?u t) =
      (set_tree t - set_tree (sub z t)) \<union> (set_tree L \<union> {y} \<union> set_tree R')" by simp
  from w st' show ?thesis by (rule that)
qed

lemma sub_sub:
  "distinct (preorder t) \<Longrightarrow> x \<in> set_tree t \<Longrightarrow> y \<in> set_tree (sub x t) \<Longrightarrow>
   sub y t = sub y (sub x t)"
proof (induction t)
  case Leaf
  then show ?case by simp
next
  case (Node l a r)
  from Node.prems(1) have dl: "distinct (preorder l)" and dr: "distinct (preorder r)"
    and lr: "set_tree l \<inter> set_tree r = {}" and al: "a \<notin> set_tree l" and ar: "a \<notin> set_tree r"
    by auto
  show ?case
  proof (cases "a = x")
    case True
    then show ?thesis by simp
  next
    case ax: False
    show ?thesis
    proof (cases "x \<in> set_tree l")
      case True
      with ax Node.prems(3) have yl: "y \<in> set_tree (sub x l)" by simp
      with set_tree_sub [of x l] have "y \<in> set_tree l" by auto
      with al have "a \<noteq> y" by auto
      with Node.IH(1) [OF dl True yl] True ax \<open>y \<in> set_tree l\<close> show ?thesis by simp
    next
      case False
      with ax Node.prems(2) have xr: "x \<in> set_tree r" by simp
      from ax False Node.prems(3) have yr: "y \<in> set_tree (sub x r)" by simp
      with set_tree_sub [of x r] have y: "y \<in> set_tree r" by auto
      with ar lr have "a \<noteq> y" "y \<notin> set_tree l" by auto
      with Node.IH(2) [OF dr xr yr] False ax show ?thesis by simp
    qed
  qed
qed

lemma set_parent_same: "parent (heap s a) = p \<Longrightarrow> set_parent a p s = s"
proof -
  have "set_parent a (parent (heap s a)) s = s" by (simp add: set_parent_def)
  then show "parent (heap s a) = p \<Longrightarrow> set_parent a p s = s" by simp
qed

lemma on_tree_same: "f (tree st) = tree st \<Longrightarrow> on_tree f st = st"
  by (simp add: on_tree_def)

text \<open>The links after the assignments of \<open>substituteSuccessor\<close>.\<close>

lemma substitute_links:
  fixes st4 z y
  defines "s4 \<equiv> tree st4"
  defines "st5 \<equiv> on_tree (transplant z (Some y)) st4"
  defines "st6 \<equiv> on_tree (\<lambda>s. set_left y (left (heap s z)) s) st5"
  defines "st7 \<equiv> (case left (heap (tree st6) y) of
                     None \<Rightarrow> st6
                   | Some yl \<Rightarrow> on_tree (set_parent yl (Some y)) st6)"
  defines "st8 \<equiv> on_tree (\<lambda>s. set_color y (color (heap s z)) s) st7"
  assumes yz: "y \<noteq> z" and pz: "parent (heap s4 z) \<noteq> Some z"
  shows "left (heap (tree st8) a) =
           (if a = y then left (heap s4 z)
            else if Some a = parent (heap s4 z) \<and> left (heap s4 a) = Some z then Some y
            else left (heap s4 a))"
    and "right (heap (tree st8) a) =
           (if Some a = parent (heap s4 z) \<and> left (heap s4 a) \<noteq> Some z then Some y
            else right (heap s4 a))"
    and "parent (heap (tree st8) a) =
           (if Some a = left (heap s4 z) then Some y
            else if a = y then parent (heap s4 z)
            else parent (heap s4 a))"
    and "root (tree st8) = (if parent (heap s4 z) = None then Some y else root s4)"
    and "nid (heap (tree st8) a) = nid (heap s4 a)"
    and "nodeCounter (tree st8) = nodeCounter s4"
    and "snaps st8 = snaps st4"
proof -
  have l5: "left (heap (tree st5) z) = left (heap s4 z)"
    using pz by (auto simp: st5_def s4_def transplant_fields)
  have t6: "tree st6 = set_left y (left (heap s4 z)) (tree st5)"
    by (simp add: st6_def l5)
  show "left (heap (tree st8) a) =
           (if a = y then left (heap s4 z)
            else if Some a = parent (heap s4 z) \<and> left (heap s4 a) = Some z then Some y
            else left (heap s4 a))"
    by (cases "left (heap s4 z)")
       (simp_all add: st8_def st7_def t6 st5_def s4_def transplant_fields)
  show "right (heap (tree st8) a) =
           (if Some a = parent (heap s4 z) \<and> left (heap s4 a) \<noteq> Some z then Some y
            else right (heap s4 a))"
    by (cases "left (heap s4 z)")
       (simp_all add: st8_def st7_def t6 st5_def s4_def transplant_fields)
  show "parent (heap (tree st8) a) =
           (if Some a = left (heap s4 z) then Some y
            else if a = y then parent (heap s4 z)
            else parent (heap s4 a))"
    by (cases "left (heap s4 z)")
       (auto simp: st8_def st7_def t6 st5_def s4_def transplant_fields)
  show "root (tree st8) = (if parent (heap s4 z) = None then Some y else root s4)"
    by (cases "left (heap s4 z)")
       (simp_all add: st8_def st7_def t6 st5_def s4_def transplant_fields set_color_def
          set_left_def set_parent_def)
  show "nid (heap (tree st8) a) = nid (heap s4 a)"
    by (cases "left (heap s4 z)")
       (simp_all add: st8_def st7_def t6 st5_def s4_def transplant_fields)
  show "nodeCounter (tree st8) = nodeCounter s4"
    by (cases "left (heap s4 z)")
       (simp_all add: st8_def st7_def t6 st5_def s4_def transplant_fields set_color_def
          set_left_def set_parent_def)
  show "snaps st8 = snaps st4"
    by (simp add: st8_def st7_def st6_def st5_def split: option.splits)
qed

lemma substituteSuccessor_inv:
  assumes I: "rec_inv st0 t" and sn: "snaps st4 = snaps st0"
    and z: "z \<in> set_tree t" and su: "sub z t = Node L z R"
    and hR: "heap_tree (tree st0) par' ry R'" and dR: "distinct (preorder R')"
    and sR: "set_tree R' \<subseteq> set_tree R"
    and yz: "y \<noteq> z" and yL: "y \<notin> set_tree L" and yR: "y \<notin> set_tree R'"
    and yo: "y \<notin> set_tree t - set_tree (sub z t)"
    and yn: "y < nodeCounter (tree st0)" "nid (heap (tree st0) y) = node_name y"
    and l4: "\<And>a. left (heap (tree st4) a) = left (heap (tree st0) a)"
    and r4: "\<And>a. right (heap (tree st4) a) = (if a = y then ry else right (heap (tree st0) a))"
    and p4: "\<And>a. parent (heap (tree st4) a) =
               (if Some a = ry then Some y else parent (heap (tree st0) a))"
    and root4: "root (tree st4) = root (tree st0)"
    and nid4: "\<And>a. nid (heap (tree st4) a) = nid (heap (tree st0) a)"
    and nc4: "nodeCounter (tree st4) = nodeCounter (tree st0)"
  obtains r t' where "substituteSuccessor v z y st4 = Some r" and "rec_inv r t'"
    and "set_tree t' = (set_tree t - set_tree (sub z t)) \<union> (set_tree L \<union> {y} \<union> set_tree R')"
    and "\<And>a. parent (heap (tree r) a) =
           (if Some a = left (heap (tree st0) z) then Some y
            else if a = y then parent (heap (tree st0) z)
            else if Some a = ry then Some y
            else parent (heap (tree st0) a))"
proof -
  let ?s = "tree st0"
  define st8 where "st8 =
    on_tree (\<lambda>s. set_color y (color (heap s z)) s)
      (case left (heap (tree (on_tree (\<lambda>s. set_left y (left (heap s z)) s)
                (on_tree (transplant z (Some y)) st4))) y) of
         None \<Rightarrow> on_tree (\<lambda>s. set_left y (left (heap s z)) s)
                   (on_tree (transplant z (Some y)) st4)
       | Some yl \<Rightarrow> on_tree (set_parent yl (Some y))
                     (on_tree (\<lambda>s. set_left y (left (heap s z)) s)
                       (on_tree (transplant z (Some y)) st4)))"
  from I have ti: "tree_inv ?s t" by (rule rec_inv_tree)
  then have wf: "wf_tree ?s t" and nm: "named ?s t" by (simp_all add: tree_inv_def)
  from wf have d: "distinct (preorder t)" by (simp add: wf_tree_def)
  from distinct_sub [OF d, of z] su have zR: "z \<notin> set_tree R" by simp
  have ryR: "\<And>a. Some a = ry \<Longrightarrow> a \<in> set_tree R'"
    using hR by (auto dest: heap_tree_Some)
  from ryR sR zR have zry: "Some z \<noteq> ry" by auto
  have pzz: "parent (heap ?s z) \<noteq> Some z"
    using wf_parent_outside(3) [OF wf z] by auto
  from zry pzz have pz4: "parent (heap (tree st4) z) \<noteq> Some z" by (simp add: p4)
  have pz: "parent (heap (tree st4) z) = parent (heap ?s z)" using zry by (simp add: p4)
  have ypz: "Some y \<noteq> parent (heap ?s z)"
  proof
    assume "Some y = parent (heap ?s z)"
    then have p: "parent (heap ?s z) = Some y" by simp
    from wf_parent_outside(1,2) [OF wf z p] yo show False by simp
  qed
  note SL = substitute_links [of y z st4, OF yz pz4, folded st8_def]
  have lf: "\<And>a. left (heap (tree st8) a) =
       (if a = y then left (heap ?s z)
        else if Some a = parent (heap ?s z) \<and> left (heap ?s a) = Some z then Some y
        else left (heap ?s a))"
    using zry by (simp add: SL(1) l4 p4)
  have rf: "\<And>a. right (heap (tree st8) a) =
       (if a = y then ry
        else if Some a = parent (heap ?s z) \<and> left (heap ?s a) \<noteq> Some z then Some y
        else right (heap ?s a))"
    using ypz zry by (simp add: SL(2) l4 r4 p4)
  have pf: "\<And>a. parent (heap (tree st8) a) =
       (if Some a = left (heap ?s z) then Some y
        else if a = y then parent (heap ?s z)
        else if Some a = ry then Some y
        else parent (heap ?s a))"
    using zry by (simp add: SL(3) l4 p4)
  have rootf: "root (tree st8) = (if parent (heap ?s z) = None then Some y else root ?s)"
    using zry by (simp add: SL(4) p4 root4)
  obtain t' where w: "wf_tree (tree st8) t'"
    and st: "set_tree t' =
       (set_tree t - set_tree (sub z t)) \<union> (set_tree L \<union> {y} \<union> set_tree R')"
    by (erule substitute_tree [OF wf z su hR dR sR yz yL yR yo lf rf pf rootf])
  have "named (tree st8) t'"
    unfolding named_def
  proof
    fix a assume "a \<in> set_tree t'"
    with st su sR have "a \<in> set_tree t \<or> a = y"
      using set_tree_sub [of z t] by auto
    with nm yn show "a < nodeCounter (tree st8) \<and> nid (heap (tree st8) a) = node_name a"
      by (auto simp: SL(5,6) nid4 nc4 named_def)
  qed
  with w have ti8: "tree_inv (tree st8) t'" by (simp add: tree_inv_def)
  have I8: "rec_inv st8 t'" by (rule rec_inv_change [OF I]) (simp_all add: SL(7) sn ti8)
  from recordCompact_inv [OF I8] obtain r where
    r: "recordCompact (Substituted v (nvalue (heap (tree st8) y)))
          (\<lambda>s. [Some y, left (heap s y), right (heap s y)]) st8 = Some r"
    and tr: "tree r = tree st8" and Ir: "rec_inv r t'" by blast
  from r have "substituteSuccessor v z y st4 = Some r"
    by (simp add: substituteSuccessor_def Let_def st8_def)
  from this Ir st show ?thesis by (rule that) (simp add: tr pf)
qed

lemma delete_two_children_inv:
  assumes I: "rec_inv st t" and z: "z \<in> set_tree t"
    and zr: "right (heap (tree st) z) = Some zr"
  shows "\<exists>r. delete_two_children v z zr st = Some r \<and>
           (case r of (c, x, xParent, st') \<Rightarrow>
              \<exists>t'. rec_inv st' t' \<and> fix_position (tree st') t' x xParent)"
proof -
  let ?s = "tree st"
  from I have ti: "tree_inv ?s t" by (rule rec_inv_tree)
  then have wf: "wf_tree ?s t" and nm: "named ?s t" by (simp_all add: tree_inv_def)
  from wf have h: "heap_tree ?s None (root ?s) t" and d: "distinct (preorder t)"
    by (simp_all add: wf_tree_def)
  from sub_root [OF z] obtain L R where su: "sub z t = Node L z R" by blast
  from heap_tree_sub [OF h z] su zr have hR: "heap_tree ?s (Some z) (Some zr) R" by simp
  from distinct_sub [OF d, of z] su have ds: "distinct (preorder (Node L z R))" by simp
  then have LR: "set_tree L \<inter> set_tree R = {}" and zL: "z \<notin> set_tree L"
    and zR: "z \<notin> set_tree R" by auto
  from minimum_heap_tree [OF hR] obtain y where yR: "y \<in> set_tree R"
    and m: "minimum ?s zr = Some y" and yl: "left (heap ?s y) = None" by blast
  from yR su have ysub: "y \<in> set_tree (sub z t)" by simp
  with set_tree_sub [of z t] have yt: "y \<in> set_tree t" by auto
  from yR zR have yz: "y \<noteq> z" by auto
  from yR LR have yL: "y \<notin> set_tree L" by auto
  from sub_sub [OF d z ysub] su yz yL have suy: "sub y t = sub y R" by simp
  from sub_root [OF yt] obtain Ly Ry where suy': "sub y t = Node Ly y Ry" by blast
  from heap_tree_sub [OF h yt] suy' yl
  have Ly: "Ly = Leaf" and hRy: "heap_tree ?s (Some y) (right (heap ?s y)) Ry" by simp_all
  from suy suy' have "sub y R = Node Ly y Ry" by simp
  with set_tree_sub [of y R] have RyR: "set_tree Ry \<subseteq> set_tree R" by simp
  from distinct_sub [OF d, of y] suy' have dRy: "distinct (preorder Ry)"
    and yRy: "y \<notin> set_tree Ry" by simp_all
  from nm yt have yn: "y < nodeCounter ?s" "nid (heap ?s y) = node_name y"
    by (simp_all add: named_def)
  have yo: "y \<notin> set_tree t - set_tree (sub z t)" using ysub by simp
  have xc: "\<And>c. right (heap ?s y) = Some c \<Longrightarrow> parent (heap ?s c) = Some y"
    using wf_right_child [OF wf yt] by simp
  have xz: "right (heap ?s y) \<noteq> Some z"
  proof
    assume "right (heap ?s y) = Some z"
    from xc [OF this] wf_parent_outside(2) [OF wf z] ysub show False by simp
  qed
  show ?thesis
  proof (cases "parent (heap ?s y) = Some z")
    case True
    have same: "(case right (heap ?s y) of None \<Rightarrow> st | Some xa \<Rightarrow> on_tree (set_parent xa (Some y)) st) = st"
      by (auto split: option.splits intro!: on_tree_same set_parent_same xc)
    from True have det: "detachSuccessor z y st = Some (Some y, st)"
      by (simp add: detachSuccessor_def Let_def same)
    have p4: "\<And>a. parent (heap ?s a) = (if Some a = right (heap ?s y) then Some y else parent (heap ?s a))"
      using xc by auto
    have r4: "\<And>a. right (heap ?s a) =
        (if a = y then right (heap ?s y) else right (heap ?s a))" by simp
    obtain r t' where sb: "substituteSuccessor v z y st = Some r" and Ir: "rec_inv r t'"
      and st': "set_tree t' =
         (set_tree t - set_tree (sub z t)) \<union> (set_tree L \<union> {y} \<union> set_tree Ry)"
      and pf: "\<And>a. parent (heap (tree r) a) =
           (if Some a = left (heap ?s z) then Some y
            else if a = y then parent (heap ?s z)
            else if Some a = right (heap ?s y) then Some y
            else parent (heap ?s a))"
      by (erule substituteSuccessor_inv [OF I refl z su hRy dRy RyR yz yL yRy yo yn refl r4 p4
            refl refl refl])
    have fp: "fix_position (tree r) t' (right (heap ?s y)) (Some y)"
    proof (cases "right (heap ?s y)")
      case None
      with st' show ?thesis by (simp add: fix_position_def)
    next
      case (Some c)
      with hRy have c: "c \<in> set_tree Ry" by (auto dest: heap_tree_Some)
      with yRy have "c \<noteq> y" by auto
      with Some c st' show ?thesis by (simp add: fix_position_def pf)
    qed
    from Ir fp have "\<exists>t'. rec_inv r t' \<and> fix_position (tree r) t' (right (heap ?s y)) (Some y)"
      by (intro exI [of _ t'] conjI)
    with m det sb show ?thesis by (simp add: delete_two_children_def Let_def)
  next
    case False
    let ?s1 = "transplant y (right (heap ?s y)) ?s"
    have one: "(left (heap ?s y) = None \<and> right (heap ?s y) = right (heap ?s y)) \<or>
               (right (heap ?s y) = None \<and> right (heap ?s y) = left (heap ?s y))"
      using yl by simp
    obtain t1 where ti1: "tree_inv ?s1 t1" and st1: "set_tree t1 = set_tree t - {y}"
      and c1: "\<And>c. right (heap ?s y) = Some c \<Longrightarrow> c \<in> set_tree t1"
      and e1: "parent (heap ?s y) = None \<Longrightarrow> right (heap ?s y) = None \<Longrightarrow> t1 = Leaf"
      by (erule splice_tree [OF ti yt one])
    from ti1 have wf1: "wf_tree ?s1 t1" by (simp add: tree_inv_def)
    from I ti1 have I1: "rec_inv (on_tree (transplant y (right (heap ?s y))) st) t1"
      by (rule rec_inv_on_tree)
    from recordCompact_inv [OF I1] obtain st1' where
      rc: "recordCompact (PulledUp (nvalue (heap ?s y)))
             (\<lambda>s. [Some y, right (heap s y), parent (heap s y)])
             (on_tree (transplant y (right (heap ?s y))) st) = Some st1'"
      and ts1: "tree st1' = ?s1" and I1': "rec_inv st1' t1" by auto
    define st3 where "st3 =
      (case right (heap (tree (on_tree (\<lambda>s. set_right y (right (heap s z)) s) st1')) y) of
         None \<Rightarrow> on_tree (\<lambda>s. set_right y (right (heap s z)) s) st1'
       | Some yr \<Rightarrow> on_tree (set_parent yr (Some y))
                     (on_tree (\<lambda>s. set_right y (right (heap s z)) s) st1'))"
    from False rc have det: "detachSuccessor z y st = Some (parent (heap ?s y), st3)"
      by (simp add: detachSuccessor_def Let_def st3_def)
    let ?ry = "right (heap ?s1 z)"
    have sn: "snaps st3 = snaps st1'" by (simp add: st3_def split: option.splits)
    have l4: "\<And>a. left (heap (tree st3) a) = left (heap (tree st1') a)"
      by (simp add: st3_def split: option.splits)
    have r4: "\<And>a. right (heap (tree st3) a) =
        (if a = y then right (heap (tree st1') z) else right (heap (tree st1') a))"
      by (simp add: st3_def split: option.splits)
    have p4: "\<And>a. parent (heap (tree st3) a) =
        (if Some a = right (heap (tree st1') z) then Some y else parent (heap (tree st1') a))"
      by (auto simp: st3_def split: option.splits)
    have root4: "root (tree st3) = root (tree st1')"
      by (simp add: st3_def set_right_def set_parent_def split: option.splits)
    have nid4: "\<And>a. nid (heap (tree st3) a) = nid (heap (tree st1') a)"
      by (simp add: st3_def split: option.splits)
    have nc4: "nodeCounter (tree st3) = nodeCounter (tree st1')"
      by (simp add: st3_def set_right_def set_parent_def split: option.splits)
    from z yz st1 have z1: "z \<in> set_tree t1" by simp
    from sub_root [OF z1] obtain L1 R1 where su1: "sub z t1 = Node L1 z R1" by blast
    from wf1 have h1: "heap_tree ?s1 None (root ?s1) t1" and d1: "distinct (preorder t1)"
      by (simp_all add: wf_tree_def)
    from heap_tree_sub [OF h1 z1] su1
    have hR1: "heap_tree (tree st1') (Some z) (right (heap (tree st1') z)) R1"
      by (simp add: ts1)
    from distinct_sub [OF d1, of z] su1 have dR1: "distinct (preorder R1)"
      and zL1: "z \<notin> set_tree L1" and zR1: "z \<notin> set_tree R1" by simp_all
    from st1 have y1: "y \<notin> set_tree t1" by simp
    with set_tree_sub [of z t1] su1 have yL1: "y \<notin> set_tree L1" and yR1: "y \<notin> set_tree R1"
      by auto
    from y1 have yo1: "y \<notin> set_tree t1 - set_tree (sub z t1)" by simp
    from yn have yn1: "y < nodeCounter (tree st1')" "nid (heap (tree st1') y) = node_name y"
      by (simp_all add: ts1 transplant_fields)
    obtain r t' where sb: "substituteSuccessor v z y st3 = Some r" and Ir: "rec_inv r t'"
      and st': "set_tree t' =
         (set_tree t1 - set_tree (sub z t1)) \<union> (set_tree L1 \<union> {y} \<union> set_tree R1)"
      and pf: "\<And>a. parent (heap (tree r) a) =
           (if Some a = left (heap (tree st1') z) then Some y
            else if a = y then parent (heap (tree st1') z)
            else if Some a = right (heap (tree st1') z) then Some y
            else parent (heap (tree st1') a))"
      by (erule substituteSuccessor_inv [OF I1' sn z1 su1 hR1 dR1 subset_refl yz yL1 yR1 yo1
            yn1 l4 r4 p4 root4 nid4 nc4])
    have t'': "set_tree t' = (set_tree t1 - {z}) \<union> {y}"
      using st' su1 set_tree_sub [of z t1] zL1 zR1 by auto
    from depth_sub [OF d z ysub] su yz have "depth y t \<noteq> 0" by simp
    with wf_depth_root [OF wf yt] obtain yp where yp: "parent (heap ?s y) = Some yp"
      by (cases "parent (heap ?s y)") auto
    from wf_parent_outside(1,3) [OF wf yt yp] False yp st1
    have ypt: "yp \<in> set_tree t'" by (simp add: t'')
    have fp: "fix_position (tree r) t' (right (heap ?s y)) (parent (heap ?s y))"
    proof (cases "right (heap ?s y)")
      case None
      with ypt yp show ?thesis by (simp add: fix_position_def)
    next
      case (Some c)
      from c1 [OF Some] have ct1: "c \<in> set_tree t1" .
      from Some xz have cz: "c \<noteq> z" by auto
      from ct1 y1 have cy: "c \<noteq> y" by auto
      have pc: "parent (heap ?s1 c) = parent (heap ?s y)"
        using Some by (simp add: transplant_fields)
      have cl: "Some c \<noteq> left (heap ?s1 z)"
      proof
        assume "Some c = left (heap ?s1 z)"
        then have "left (heap ?s1 z) = Some c" by simp
        from wf_left_child [OF wf1 z1 this] pc False show False by simp
      qed
      have cr: "Some c \<noteq> right (heap ?s1 z)"
      proof
        assume "Some c = right (heap ?s1 z)"
        then have "right (heap ?s1 z) = Some c" by simp
        from wf_right_child [OF wf1 z1 this] pc False show False by simp
      qed
      from cl cr cy pc have "parent (heap (tree r) c) = parent (heap ?s y)"
        by (simp add: pf ts1)
      with Some ct1 cz show ?thesis by (simp add: fix_position_def t'')
    qed
    from Ir fp have "\<exists>t'. rec_inv r t' \<and> fix_position (tree r) t' (right (heap ?s y)) (parent (heap ?s y))"
      by (intro exI [of _ t'] conjI)
    with m det sb show ?thesis by (simp add: delete_two_children_def Let_def)
  qed
qed

subsection \<open>Delete fixup\<close>

lemma recordCompact_obtain:
  assumes "rec_inv st t"
  obtains st' where "recordCompact d f st = Some st'" and "tree st' = tree st"
    and "rec_inv st' t"
  using recordCompact_inv [OF assms, of d f] by blast

lemma rotateLeft_obtain:
  assumes "tree_inv s t" and "x \<in> set_tree t"
  obtains t' where "tree_inv (rotateLeft x s) t'" and "set_tree t' = set_tree t"
    and "\<And>y. right (heap s x) = Some y \<Longrightarrow> depth y t' = depth x t"
proof -
  from rotateLeft_inv [OF assms] obtain t' where
    A: "tree_inv (rotateLeft x s) t' \<and> set_tree t' = set_tree t \<and>
        (\<forall>b \<in> set_tree t. b \<notin> set_tree (sub x t) \<longrightarrow> depth b t' = depth b t) \<and>
        (\<forall>y. right (heap s x) = Some y \<longrightarrow> depth y t' = depth x t)" ..
  then have "tree_inv (rotateLeft x s) t'" and "set_tree t' = set_tree t"
    and "\<And>y. right (heap s x) = Some y \<Longrightarrow> depth y t' = depth x t" by simp_all
  then show ?thesis by (rule that)
qed

lemma rotateRight_obtain:
  assumes "tree_inv s t" and "x \<in> set_tree t"
  obtains t' where "tree_inv (rotateRight x s) t'" and "set_tree t' = set_tree t"
    and "\<And>y. left (heap s x) = Some y \<Longrightarrow> depth y t' = depth x t"
proof -
  from rotateRight_inv [OF assms] obtain t' where
    A: "tree_inv (rotateRight x s) t' \<and> set_tree t' = set_tree t \<and>
        (\<forall>b \<in> set_tree t. b \<notin> set_tree (sub x t) \<longrightarrow> depth b t' = depth b t) \<and>
        (\<forall>y. left (heap s x) = Some y \<longrightarrow> depth y t' = depth x t)" ..
  then have "tree_inv (rotateRight x s) t'" and "set_tree t' = set_tree t"
    and "\<And>y. left (heap s x) = Some y \<Longrightarrow> depth y t' = depth x t" by simp_all
  then show ?thesis by (rule that)
qed

text \<open>
  The first phase of a round under the parent \<open>p\<close>: a red sibling is rotated above \<open>p\<close>,
  which moves \<open>p\<close> one level down and leaves it red.
\<close>

lemma fixDelete_red_sibling_left_inv:
  assumes I: "rec_inv st t" and p: "p \<in> set_tree t"
    and sb: "right (heap (tree st) p) = Some sb"
  obtains st1 t1 where
    "fixDelete_red_sibling_left (Some p) sb st = Some (right (heap (tree st1) p), st1)"
    and "rec_inv st1 t1" and "p \<in> set_tree t1"
    and "depth p t1 = depth p t \<or>
         (depth p t1 = Suc (depth p t) \<and> color (heap (tree st1) p) = red)"
proof (cases "color (heap (tree st) sb) = red")
  case False
  with sb have "fixDelete_red_sibling_left (Some p) sb st = Some (right (heap (tree st) p), st)"
    by (simp add: fixDelete_red_sibling_left_def)
  from this I p show ?thesis by (rule that) simp
next
  case True
  define stc where "stc = on_tree (set_color p red) (on_tree (set_color sb black) st)"
  from I have Ic: "rec_inv stc t" by (simp add: stc_def)
  obtain st2 where rc2: "recordCompact SiblingRedPrepareLeft
      (\<lambda>s. [Some p, Some sb, left (heap s sb), right (heap s sb)]) stc = Some st2"
    and ts2: "tree st2 = tree stc" and I2: "rec_inv st2 t"
    by (erule recordCompact_obtain [OF Ic])
  note ti2 = rec_inv_tree [OF I2]
  then have wf2: "wf_tree (tree st2) t" by (simp add: tree_inv_def)
  have sb2: "right (heap (tree st2) p) = Some sb" using sb by (simp add: ts2 stc_def)
  obtain t' where ti': "tree_inv (rotateLeft p (tree st2)) t'"
    and s': "set_tree t' = set_tree t"
    and dy: "\<And>y. right (heap (tree st2) p) = Some y \<Longrightarrow> depth y t' = depth p t"
    by (erule rotateLeft_obtain [OF ti2 p])
  from I2 ti' have I3: "rec_inv (on_tree (rotateLeft p) st2) t'" by (rule rec_inv_on_tree)
  obtain st3 where rc3: "recordCompact (LeftRotation (nvalue (heap (tree st2) p)))
      (\<lambda>s. [Some sb, Some p, parent (heap s p), left (heap s sb), right (heap s sb)])
      (on_tree (rotateLeft p) st2) = Some st3"
    and ts3: "tree st3 = tree (on_tree (rotateLeft p) st2)" and I3': "rec_inv st3 t'"
    by (erule recordCompact_obtain [OF I3])
  from rc2 rc3 True
  have res: "fixDelete_red_sibling_left (Some p) sb st = Some (right (heap (tree st3) p), st3)"
    by (simp add: fixDelete_red_sibling_left_def Let_def opt_right_def stc_def)
  from p s' have p': "p \<in> set_tree t'" by simp
  from ti' have wf': "wf_tree (rotateLeft p (tree st2)) t'" by (simp add: tree_inv_def)
  have "parent (heap (rotateLeft p (tree st2)) p) = Some sb"
    by (simp add: rotateLeft_links [OF wf2 p sb2])
  from wf_depth_parent [OF wf' p' this] dy [OF sb2]
  have d: "depth p t' = Suc (depth p t)" by simp
  have c: "color (heap (tree st3) p) = red" by (simp add: ts3 ts2 stc_def)
  from d c have "depth p t' = depth p t \<or>
      (depth p t' = Suc (depth p t) \<and> color (heap (tree st3) p) = red)" by simp
  with res I3' p' show ?thesis by (rule that)
qed

lemma opt_simps:
  "opt_left s (Some a) = left (heap s a)" "opt_left s None = None"
  "opt_right s (Some a) = right (heap s a)" "opt_right s None = None"
  "opt_parent s (Some a) = parent (heap s a)" "opt_parent s None = None"
  by (simp_all add: opt_left_def opt_right_def opt_parent_def)

lemma fixDelete_far_black_left_inv:
  assumes I: "rec_inv st t" and p: "p \<in> set_tree t"
    and sib: "set_option sib \<subseteq> set_tree t"
  obtains sib2 st2 t2 where
    "fixDelete_far_black_left (Some p) sib st = Some (sib2, st2)"
    and "rec_inv st2 t2" and "p \<in> set_tree t2"
proof (cases "isBlack (tree st) (opt_right (tree st) sib)")
  case False
  then have "fixDelete_far_black_left (Some p) sib st = Some (sib, st)"
    by (simp add: fixDelete_far_black_left_def)
  from this I p show ?thesis by (rule that)
next
  case True
  define st1 where "st1 = (case opt_left (tree st) sib of
                             None \<Rightarrow> st
                           | Some sl \<Rightarrow> on_tree (set_color sl black) st)"
  from I have I1: "rec_inv st1 t" by (simp add: st1_def split: option.splits)
  show ?thesis
  proof (cases sib)
    case None
    with True have "fixDelete_far_black_left (Some p) sib st =
        Some (opt_right (tree st1) (Some p), st1)"
      by (simp add: fixDelete_far_black_left_def Let_def st1_def)
    from this I1 p show ?thesis by (rule that)
  next
    case (Some b)
    from sib Some have b: "b \<in> set_tree t" by simp
    from I1 have Ic: "rec_inv (on_tree (set_color b red) st1) t" by simp
    obtain st2 where rc2: "recordCompact SiblingLeftRedRotateRight
        (\<lambda>s. [Some b, left (heap s b), right (heap s b)])
        (on_tree (set_color b red) st1) = Some st2"
      and ts2: "tree st2 = tree (on_tree (set_color b red) st1)" and I2: "rec_inv st2 t"
      by (erule recordCompact_obtain [OF Ic])
    obtain t' where ti': "tree_inv (rotateRight b (tree st2)) t'"
      and s': "set_tree t' = set_tree t"
      and dy: "\<And>y. left (heap (tree st2) b) = Some y \<Longrightarrow> depth y t' = depth b t"
      by (erule rotateRight_obtain [OF rec_inv_tree [OF I2] b])
    from I2 ti' have I3: "rec_inv (on_tree (rotateRight b) st2) t'" by (rule rec_inv_on_tree)
    from rc2 True Some
    have res: "fixDelete_far_black_left (Some p) sib st =
        Some (opt_right (tree (on_tree (rotateRight b) st2)) (Some p),
              on_tree (rotateRight b) st2)"
      by (simp add: fixDelete_far_black_left_def Let_def st1_def)
    from p s' have "p \<in> set_tree t'" by simp
    with res I3 show ?thesis by (rule that)
  qed
qed

lemma fixDelete_final_left_inv:
  assumes I: "rec_inv st t" and p: "p \<in> set_tree t"
  obtains c st3 t3 where "fixDelete_final_left (Some p) sib st = Some (DeleteBreak c st3)"
    and "rec_inv st3 t3"
proof -
  define st1 where "st1 =
    (case sib of
       None \<Rightarrow> st
     | Some sb \<Rightarrow>
         (case right (heap (tree (on_tree (set_color sb (color (heap (tree st) p))) st)) sb) of
            None \<Rightarrow> on_tree (set_color sb (color (heap (tree st) p))) st
          | Some sr \<Rightarrow> on_tree (set_color sr black)
                          (on_tree (set_color sb (color (heap (tree st) p))) st)))"
  from I have I1: "rec_inv st1 t" by (simp add: st1_def split: option.splits)
  then have Ic: "rec_inv (on_tree (set_color p black) st1) t" by simp
  obtain st2 where rc2: "recordCompact SiblingRightRedRotateLeft
      (\<lambda>s. [Some p, sib, opt_right s sib, opt_left s sib])
      (on_tree (set_color p black) st1) = Some st2"
    and ts2: "tree st2 = tree (on_tree (set_color p black) st1)" and I2: "rec_inv st2 t"
    by (erule recordCompact_obtain [OF Ic])
  obtain t' where ti': "tree_inv (rotateLeft p (tree st2)) t'"
    and s': "set_tree t' = set_tree t"
    and dy: "\<And>y. right (heap (tree st2) p) = Some y \<Longrightarrow> depth y t' = depth p t"
    by (erule rotateLeft_obtain [OF rec_inv_tree [OF I2] p])
  from I2 ti' have I3: "rec_inv (on_tree (rotateLeft p) st2) t'" by (rule rec_inv_on_tree)
  from rc2 have "fixDelete_final_left (Some p) sib st =
      Some (DeleteBreak (root (tree (on_tree (rotateLeft p) st2))) (on_tree (rotateLeft p) st2))"
    by (cases sib) (simp_all add: fixDelete_final_left_def Let_def st1_def)
  from this I3 show ?thesis by (rule that)
qed

lemma fixDelete_left_inv:
  assumes I: "rec_inv st t" and p: "p \<in> set_tree t"
  shows "\<exists>r. fixDelete_left (Some p) st = Some r \<and> delete_post (2 * depth p t + 3) r"
proof (cases "right (heap (tree st) p)")
  case None
  from p have "fix_position (tree st) t (Some p) (parent (heap (tree st) p))"
    by (simp add: fix_position_def)
  moreover have "fix_measure (tree st) t (Some p) (parent (heap (tree st) p))
      < 2 * depth p t + 3"
    by (simp add: fix_measure_def position_depth_def)
  ultimately have "delete_post (2 * depth p t + 3)
      (DeleteAgain (Some p) (parent (heap (tree st) p)) st)"
    using I by (simp only: delete_post.simps) (intro exI [of _ t] conjI)
  with None show ?thesis by (simp add: fixDelete_left_def opt_simps)
next
  case (Some sb)
  obtain st1 t1 where
    r1: "fixDelete_red_sibling_left (Some p) sb st = Some (right (heap (tree st1) p), st1)"
    and I1: "rec_inv st1 t1" and p1: "p \<in> set_tree t1"
    and d1: "depth p t1 = depth p t \<or>
         (depth p t1 = Suc (depth p t) \<and> color (heap (tree st1) p) = red)"
    by (erule fixDelete_red_sibling_left_inv [OF I p Some])
  let ?sib = "right (heap (tree st1) p)"
  from I1 have wf1: "wf_tree (tree st1) t1" by (simp add: rec_inv_def tree_inv_def)
  have sib1: "\<And>b. ?sib = Some b \<Longrightarrow> b \<in> set_tree t1 \<and> b \<noteq> p"
    using wf_right_child [OF wf1 p1] by auto
  show ?thesis
  proof (cases "isBlack (tree st1) (opt_left (tree st1) ?sib) \<and>
                isBlack (tree st1) (opt_right (tree st1) ?sib)")
    case True
    define stc where "stc = (case ?sib of None \<Rightarrow> Some st1
        | Some sb1 \<Rightarrow> recordCompact SiblingAllBlack (\<lambda>s. [Some sb1, Some p])
                        (on_tree (set_color sb1 red) st1))"
    have "\<exists>st2. stc = Some st2 \<and> rec_inv st2 t1 \<and>
        color (heap (tree st2) p) = color (heap (tree st1) p)"
    proof (cases ?sib)
      case None
      with I1 show ?thesis by (simp add: stc_def)
    next
      case (Some b)
      from I1 have Ic: "rec_inv (on_tree (set_color b red) st1) t1" by simp
      obtain st2 where rc2: "recordCompact SiblingAllBlack (\<lambda>s. [Some b, Some p])
          (on_tree (set_color b red) st1) = Some st2"
        and ts2: "tree st2 = tree (on_tree (set_color b red) st1)" and I2: "rec_inv st2 t1"
        by (erule recordCompact_obtain [OF Ic])
      from sib1 [OF Some] have "color (heap (tree st2) p) = color (heap (tree st1) p)"
        by (simp add: ts2)
      with rc2 I2 Some show ?thesis by (simp add: stc_def)
    qed
    then obtain st2 where stc: "stc = Some st2" and I2: "rec_inv st2 t1"
      and c2: "color (heap (tree st2) p) = color (heap (tree st1) p)" by blast
    from p1 have fp: "fix_position (tree st2) t1 (Some p) (parent (heap (tree st2) p))"
      by (simp add: fix_position_def)
    from d1 c2 have "fix_measure (tree st2) t1 (Some p) (parent (heap (tree st2) p))
        < 2 * depth p t + 3"
      by (auto simp: fix_measure_def position_depth_def isBlack_def)
    with I2 fp have "delete_post (2 * depth p t + 3)
        (DeleteAgain (Some p) (parent (heap (tree st2) p)) st2)"
      by (simp only: delete_post.simps) (intro exI [of _ t1] conjI)
    with Some r1 True stc [unfolded stc_def] show ?thesis
      by (simp add: fixDelete_left_def opt_simps)
  next
    case False
    have sib1': "set_option ?sib \<subseteq> set_tree t1" using sib1 by (cases ?sib) simp_all
    obtain sib2 st2 t2 where
      r2: "fixDelete_far_black_left (Some p) ?sib st1 = Some (sib2, st2)"
      and I2: "rec_inv st2 t2" and p2: "p \<in> set_tree t2"
      by (erule fixDelete_far_black_left_inv [OF I1 p1 sib1'])
    obtain c st3 t3 where
      r3: "fixDelete_final_left (Some p) sib2 st2 = Some (DeleteBreak c st3)"
      and I3: "rec_inv st3 t3"
      by (erule fixDelete_final_left_inv [OF I2 p2])
    from I3 have "delete_post (2 * depth p t + 3) (DeleteBreak c st3)"
      by (simp only: delete_post.simps) (rule exI)
    with Some r1 False r2 r3 show ?thesis
      by (auto simp add: fixDelete_left_def opt_simps)
  qed
qed

text \<open>
  The mirrored first phase under the parent \<open>p\<close>: a red sibling is rotated above \<open>p\<close>,
  which moves \<open>p\<close> one level down and leaves it red.
\<close>

lemma fixDelete_red_sibling_right_inv:
  assumes I: "rec_inv st t" and p: "p \<in> set_tree t"
    and sb: "left (heap (tree st) p) = Some sb"
  obtains st1 t1 where
    "fixDelete_red_sibling_right (Some p) sb st = Some (left (heap (tree st1) p), st1)"
    and "rec_inv st1 t1" and "p \<in> set_tree t1"
    and "depth p t1 = depth p t \<or>
         (depth p t1 = Suc (depth p t) \<and> color (heap (tree st1) p) = red)"
proof (cases "color (heap (tree st) sb) = red")
  case False
  with sb have "fixDelete_red_sibling_right (Some p) sb st = Some (left (heap (tree st) p), st)"
    by (simp add: fixDelete_red_sibling_right_def)
  from this I p show ?thesis by (rule that) simp
next
  case True
  define stc where "stc = on_tree (set_color p red) (on_tree (set_color sb black) st)"
  from I have Ic: "rec_inv stc t" by (simp add: stc_def)
  obtain st2 where rc2: "recordCompact SiblingRedPrepareRight
      (\<lambda>s. [Some p, Some sb, left (heap s sb), right (heap s sb)]) stc = Some st2"
    and ts2: "tree st2 = tree stc" and I2: "rec_inv st2 t"
    by (erule recordCompact_obtain [OF Ic])
  note ti2 = rec_inv_tree [OF I2]
  then have wf2: "wf_tree (tree st2) t" by (simp add: tree_inv_def)
  have sb2: "left (heap (tree st2) p) = Some sb" using sb by (simp add: ts2 stc_def)
  obtain t' where ti': "tree_inv (rotateRight p (tree st2)) t'"
    and s': "set_tree t' = set_tree t"
    and dy: "\<And>y. left (heap (tree st2) p) = Some y \<Longrightarrow> depth y t' = depth p t"
    by (erule rotateRight_obtain [OF ti2 p])
  from I2 ti' have I3: "rec_inv (on_tree (rotateRight p) st2) t'" by (rule rec_inv_on_tree)
  obtain st3 where rc3: "recordCompact (RightRotation (nvalue (heap (tree st2) p)))
      (\<lambda>s. [Some sb, Some p, parent (heap s p), left (heap s sb), right (heap s sb)])
      (on_tree (rotateRight p) st2) = Some st3"
    and ts3: "tree st3 = tree (on_tree (rotateRight p) st2)" and I3': "rec_inv st3 t'"
    by (erule recordCompact_obtain [OF I3])
  from rc2 rc3 True
  have res: "fixDelete_red_sibling_right (Some p) sb st = Some (left (heap (tree st3) p), st3)"
    by (simp add: fixDelete_red_sibling_right_def Let_def opt_left_def stc_def)
  from p s' have p': "p \<in> set_tree t'" by simp
  from ti' have wf': "wf_tree (rotateRight p (tree st2)) t'" by (simp add: tree_inv_def)
  have "parent (heap (rotateRight p (tree st2)) p) = Some sb"
    by (simp add: rotateRight_links [OF wf2 p sb2])
  from wf_depth_parent [OF wf' p' this] dy [OF sb2]
  have d: "depth p t' = Suc (depth p t)" by simp
  have c: "color (heap (tree st3) p) = red" by (simp add: ts3 ts2 stc_def)
  from d c have "depth p t' = depth p t \<or>
      (depth p t' = Suc (depth p t) \<and> color (heap (tree st3) p) = red)" by simp
  with res I3' p' show ?thesis by (rule that)
qed

lemma fixDelete_far_black_right_inv:
  assumes I: "rec_inv st t" and p: "p \<in> set_tree t"
    and sib: "set_option sib \<subseteq> set_tree t"
  obtains sib2 st2 t2 where
    "fixDelete_far_black_right (Some p) sib st = Some (sib2, st2)"
    and "rec_inv st2 t2" and "p \<in> set_tree t2"
proof (cases "isBlack (tree st) (opt_left (tree st) sib)")
  case False
  then have "fixDelete_far_black_right (Some p) sib st = Some (sib, st)"
    by (simp add: fixDelete_far_black_right_def)
  from this I p show ?thesis by (rule that)
next
  case True
  define st1 where "st1 = (case opt_right (tree st) sib of
                             None \<Rightarrow> st
                           | Some sl \<Rightarrow> on_tree (set_color sl black) st)"
  from I have I1: "rec_inv st1 t" by (simp add: st1_def split: option.splits)
  show ?thesis
  proof (cases sib)
    case None
    with True have "fixDelete_far_black_right (Some p) sib st =
        Some (opt_left (tree st1) (Some p), st1)"
      by (simp add: fixDelete_far_black_right_def Let_def st1_def)
    from this I1 p show ?thesis by (rule that)
  next
    case (Some b)
    from sib Some have b: "b \<in> set_tree t" by simp
    from I1 have Ic: "rec_inv (on_tree (set_color b red) st1) t" by simp
    obtain st2 where rc2: "recordCompact SiblingRightRedRotateLeft
        (\<lambda>s. [Some b, left (heap s b), right (heap s b)])
        (on_tree (set_color b red) st1) = Some st2"
      and ts2: "tree st2 = tree (on_tree (set_color b red) st1)" and I2: "rec_inv st2 t"
      by (erule recordCompact_obtain [OF Ic])
    obtain t' where ti': "tree_inv (rotateLeft b (tree st2)) t'"
      and s': "set_tree t' = set_tree t"
      and dy: "\<And>y. right (heap (tree st2) b) = Some y \<Longrightarrow> depth y t' = depth b t"
      by (erule rotateLeft_obtain [OF rec_inv_tree [OF I2] b])
    from I2 ti' have I3: "rec_inv (on_tree (rotateLeft b) st2) t'" by (rule rec_inv_on_tree)
    from rc2 True Some
    have res: "fixDelete_far_black_right (Some p) sib st =
        Some (opt_left (tree (on_tree (rotateLeft b) st2)) (Some p),
              on_tree (rotateLeft b) st2)"
      by (simp add: fixDelete_far_black_right_def Let_def st1_def)
    from p s' have "p \<in> set_tree t'" by simp
    with res I3 show ?thesis by (rule that)
  qed
qed

lemma fixDelete_final_right_inv:
  assumes I: "rec_inv st t" and p: "p \<in> set_tree t"
  obtains c st3 t3 where "fixDelete_final_right (Some p) sib st = Some (DeleteBreak c st3)"
    and "rec_inv st3 t3"
proof -
  define st1 where "st1 =
    (case sib of
       None \<Rightarrow> st
     | Some sb \<Rightarrow>
         (case left (heap (tree (on_tree (set_color sb (color (heap (tree st) p))) st)) sb) of
            None \<Rightarrow> on_tree (set_color sb (color (heap (tree st) p))) st
          | Some sr \<Rightarrow> on_tree (set_color sr black)
                          (on_tree (set_color sb (color (heap (tree st) p))) st)))"
  from I have I1: "rec_inv st1 t" by (simp add: st1_def split: option.splits)
  then have Ic: "rec_inv (on_tree (set_color p black) st1) t" by simp
  obtain st2 where rc2: "recordCompact SiblingLeftRedRotateRight
      (\<lambda>s. [Some p, sib, opt_left s sib, opt_right s sib])
      (on_tree (set_color p black) st1) = Some st2"
    and ts2: "tree st2 = tree (on_tree (set_color p black) st1)" and I2: "rec_inv st2 t"
    by (erule recordCompact_obtain [OF Ic])
  obtain t' where ti': "tree_inv (rotateRight p (tree st2)) t'"
    and s': "set_tree t' = set_tree t"
    and dy: "\<And>y. left (heap (tree st2) p) = Some y \<Longrightarrow> depth y t' = depth p t"
    by (erule rotateRight_obtain [OF rec_inv_tree [OF I2] p])
  from I2 ti' have I3: "rec_inv (on_tree (rotateRight p) st2) t'" by (rule rec_inv_on_tree)
  from rc2 have "fixDelete_final_right (Some p) sib st =
      Some (DeleteBreak (root (tree (on_tree (rotateRight p) st2))) (on_tree (rotateRight p) st2))"
    by (cases sib) (simp_all add: fixDelete_final_right_def Let_def st1_def)
  from this I3 show ?thesis by (rule that)
qed

lemma fixDelete_right_inv:
  assumes I: "rec_inv st t" and p: "p \<in> set_tree t"
  shows "\<exists>r. fixDelete_right (Some p) st = Some r \<and> delete_post (2 * depth p t + 3) r"
proof (cases "left (heap (tree st) p)")
  case None
  from p have "fix_position (tree st) t (Some p) (parent (heap (tree st) p))"
    by (simp add: fix_position_def)
  moreover have "fix_measure (tree st) t (Some p) (parent (heap (tree st) p))
      < 2 * depth p t + 3"
    by (simp add: fix_measure_def position_depth_def)
  ultimately have "delete_post (2 * depth p t + 3)
      (DeleteAgain (Some p) (parent (heap (tree st) p)) st)"
    using I by (simp only: delete_post.simps) (intro exI [of _ t] conjI)
  with None show ?thesis by (simp add: fixDelete_right_def opt_simps)
next
  case (Some sb)
  obtain st1 t1 where
    r1: "fixDelete_red_sibling_right (Some p) sb st = Some (left (heap (tree st1) p), st1)"
    and I1: "rec_inv st1 t1" and p1: "p \<in> set_tree t1"
    and d1: "depth p t1 = depth p t \<or>
         (depth p t1 = Suc (depth p t) \<and> color (heap (tree st1) p) = red)"
    by (erule fixDelete_red_sibling_right_inv [OF I p Some])
  let ?sib = "left (heap (tree st1) p)"
  from I1 have wf1: "wf_tree (tree st1) t1" by (simp add: rec_inv_def tree_inv_def)
  have sib1: "\<And>b. ?sib = Some b \<Longrightarrow> b \<in> set_tree t1 \<and> b \<noteq> p"
    using wf_left_child [OF wf1 p1] by auto
  show ?thesis
  proof (cases "isBlack (tree st1) (opt_right (tree st1) ?sib) \<and>
                isBlack (tree st1) (opt_left (tree st1) ?sib)")
    case True
    define stc where "stc = (case ?sib of None \<Rightarrow> Some st1
        | Some sb1 \<Rightarrow> recordCompact SiblingAllBlack (\<lambda>s. [Some sb1, Some p])
                        (on_tree (set_color sb1 red) st1))"
    have "\<exists>st2. stc = Some st2 \<and> rec_inv st2 t1 \<and>
        color (heap (tree st2) p) = color (heap (tree st1) p)"
    proof (cases ?sib)
      case None
      with I1 show ?thesis by (simp add: stc_def)
    next
      case (Some b)
      from I1 have Ic: "rec_inv (on_tree (set_color b red) st1) t1" by simp
      obtain st2 where rc2: "recordCompact SiblingAllBlack (\<lambda>s. [Some b, Some p])
          (on_tree (set_color b red) st1) = Some st2"
        and ts2: "tree st2 = tree (on_tree (set_color b red) st1)" and I2: "rec_inv st2 t1"
        by (erule recordCompact_obtain [OF Ic])
      from sib1 [OF Some] have "color (heap (tree st2) p) = color (heap (tree st1) p)"
        by (simp add: ts2)
      with rc2 I2 Some show ?thesis by (simp add: stc_def)
    qed
    then obtain st2 where stc: "stc = Some st2" and I2: "rec_inv st2 t1"
      and c2: "color (heap (tree st2) p) = color (heap (tree st1) p)" by blast
    from p1 have fp: "fix_position (tree st2) t1 (Some p) (parent (heap (tree st2) p))"
      by (simp add: fix_position_def)
    from d1 c2 have "fix_measure (tree st2) t1 (Some p) (parent (heap (tree st2) p))
        < 2 * depth p t + 3"
      by (auto simp: fix_measure_def position_depth_def isBlack_def)
    with I2 fp have "delete_post (2 * depth p t + 3)
        (DeleteAgain (Some p) (parent (heap (tree st2) p)) st2)"
      by (simp only: delete_post.simps) (intro exI [of _ t1] conjI)
    with Some r1 True stc [unfolded stc_def] show ?thesis
      by (simp add: fixDelete_right_def opt_simps)
  next
    case False
    have sib1': "set_option ?sib \<subseteq> set_tree t1" using sib1 by (cases ?sib) simp_all
    obtain sib2 st2 t2 where
      r2: "fixDelete_far_black_right (Some p) ?sib st1 = Some (sib2, st2)"
      and I2: "rec_inv st2 t2" and p2: "p \<in> set_tree t2"
      by (erule fixDelete_far_black_right_inv [OF I1 p1 sib1'])
    obtain c st3 t3 where
      r3: "fixDelete_final_right (Some p) sib2 st2 = Some (DeleteBreak c st3)"
      and I3: "rec_inv st3 t3"
      by (erule fixDelete_final_right_inv [OF I2 p2])
    from I3 have "delete_post (2 * depth p t + 3) (DeleteBreak c st3)"
      by (simp only: delete_post.simps) (rule exI)
    with Some r1 False r2 r3 show ?thesis
      by (auto simp add: fixDelete_right_def opt_simps)
  qed
qed

lemma fixDelete_body_inv:
  assumes I: "rec_inv st t" and fp: "fix_position (tree st) t c cp"
    and ne: "c \<noteq> root (tree st)" and bl: "isBlack (tree st) c"
  shows "\<exists>r. fixDelete_body c cp st = Some r \<and>
           delete_post (fix_measure (tree st) t c cp) r"
proof -
  from I have wf: "wf_tree (tree st) t" by (simp add: rec_inv_def tree_inv_def)
  have "\<exists>p. cp = Some p \<and> p \<in> set_tree t \<and> position_depth t c cp = Suc (depth p t)"
  proof (cases c)
    case None
    show ?thesis
    proof (cases cp)
      case (Some p)
      with None fp show ?thesis by (simp add: fix_position_def position_depth_def)
    next
      case cn: None
      with None fp have "t = Leaf" by (simp add: fix_position_def)
      with wf have "root (tree st) = None" by (simp add: wf_tree_def)
      with None ne show ?thesis by simp
    qed
  next
    case (Some a)
    with fp have a: "a \<in> set_tree t" and pa: "parent (heap (tree st) a) = cp"
      by (simp_all add: fix_position_def)
    show ?thesis
    proof (cases cp)
      case None
      with wf_root_iff [OF wf a] pa Some ne show ?thesis by simp
    next
      case sp: (Some p)
      with pa have "parent (heap (tree st) a) = Some p" by simp
      from wf_depth_parent [OF wf a this] Some sp show ?thesis
        by (simp add: position_depth_def)
    qed
  qed
  then obtain p where cp: "cp = Some p" and p: "p \<in> set_tree t"
    and pd: "position_depth t c cp = Suc (depth p t)" by blast
  from pd bl have m: "fix_measure (tree st) t c cp = 2 * depth p t + 3"
    by (simp add: fix_measure_def)
  show ?thesis
  proof (cases "c = opt_left (tree st) cp")
    case True
    then have "fixDelete_body c cp st = fixDelete_left (Some p) st"
      by (simp add: fixDelete_body_def cp)
    with fixDelete_left_inv [OF I p] show ?thesis unfolding m by simp
  next
    case False
    then have "fixDelete_body c cp st = fixDelete_right (Some p) st"
      by (simp add: fixDelete_body_def cp)
    with fixDelete_right_inv [OF I p] show ?thesis unfolding m by simp
  qed
qed

lemma fixDelete_loop_inv:
  "rec_inv st t \<Longrightarrow> fix_position (tree st) t c cp \<Longrightarrow>
   \<exists>c' st' t'. fixDelete_loop c cp st = Some (c', st') \<and> rec_inv st' t'"
proof (induction "fix_measure (tree st) t c cp" arbitrary: st t c cp rule: less_induct)
  case less
  show ?case
  proof (cases "c \<noteq> root (tree st) \<and> isBlack (tree st) c")
    case False
    then have "fixDelete_loop c cp st = Some (c, st)"
      by (subst fixDelete_loop.simps) auto
    with less.prems(1) show ?thesis by (intro exI [of _ c] exI [of _ st] exI [of _ t] conjI)
  next
    case True
    then have ne: "c \<noteq> root (tree st)" and bl: "isBlack (tree st) c" by simp_all
    from fixDelete_body_inv [OF less.prems ne bl] obtain r where
      b: "fixDelete_body c cp st = Some r"
      and post: "delete_post (fix_measure (tree st) t c cp) r" by blast
    show ?thesis
    proof (cases r)
      case (DeleteBreak c1 st1)
      with post obtain t1 where "rec_inv st1 t1" by auto
      moreover from True b DeleteBreak have "fixDelete_loop c cp st = Some (c1, st1)"
        by (subst fixDelete_loop.simps) simp
      ultimately show ?thesis by (intro exI [of _ c1] exI [of _ st1] exI [of _ t1] conjI)
    next
      case (DeleteAgain c1 cp1 st1)
      with post obtain t1 where I1: "rec_inv st1 t1"
        and fp1: "fix_position (tree st1) t1 c1 cp1"
        and m1: "fix_measure (tree st1) t1 c1 cp1 < fix_measure (tree st) t c cp" by auto
      from True b DeleteAgain
      have "fixDelete_loop c cp st = fixDelete_loop c1 cp1 st1"
        by (subst fixDelete_loop.simps) simp
      with less.hyps [OF m1 I1 fp1] show ?thesis by simp
    qed
  qed
qed

lemma fixDelete_inv:
  assumes I: "rec_inv st t" and fp: "fix_position (tree st) t c cp"
  shows "\<exists>st' t'. fixDelete c cp st = Some st' \<and> rec_inv st' t'"
proof -
  from fixDelete_loop_inv [OF I fp] obtain c1 st1 t1 where
    l: "fixDelete_loop c cp st = Some (c1, st1)" and I1: "rec_inv st1 t1" by blast
  show ?thesis
  proof (cases c1)
    case None
    with l I1 show ?thesis by (auto simp: fixDelete_def)
  next
    case (Some a)
    from I1 have "rec_inv (on_tree (set_color a black) st1) t1" by simp
    from recordSnapshot_inv [OF this, of FinallyBlack "[nid (heap (tree st1) a)]"]
    obtain st2 where "recordSnapshot FinallyBlack [nid (heap (tree st1) a)]
        (on_tree (set_color a black) st1) = Some st2" and "rec_inv st2 t1" by blast
    with l Some show ?thesis by (auto simp: fixDelete_def)
  qed
qed

lemma delete_close_inv:
  assumes I: "rec_inv st t"
  shows "\<exists>st'. delete_close st = Some st' \<and> rec_inv st' t"
proof (cases "root (tree st)")
  case None
  from recordSnapshot_inv [OF I, of TreeIsEmpty "[]"] None show ?thesis
    by (auto simp: delete_close_def)
next
  case (Some r)
  from I have "rec_inv (on_tree (set_color r black) st) t" by simp
  from recordSnapshot_inv [OF this, of KeepRootBlack "[nid (heap (tree st) r)]"] Some
  show ?thesis by (auto simp: delete_close_def)
qed

theorem rb_delete_inv:
  assumes ti: "tree_inv s t"
  shows "\<exists>s' r t'. rb_delete v s = Some (s', r) \<and> tree_inv s' t' \<and>
           (\<forall>sn \<in> set (snapshots r). good_export (nodes sn))"
proof -
  from ti have wf: "wf_tree s t" by (simp add: tree_inv_def)
  from startRecording_inv [OF ti] obtain st0 where
    s0: "startRecording s = Some st0" and ts0: "tree st0 = s" and I0: "rec_inv st0 t" by blast
  from rb_find_wf [OF wf, of v] obtain target where f: "rb_find s v = Some target"
    and tg: "case target of None \<Rightarrow> True | Some e \<Rightarrow> e \<in> set_tree t \<and> nvalue (heap s e) = v"
    by blast
  show ?thesis
  proof (cases target)
    case None
    from recordSnapshot_inv [OF I0, of "NotFound v" "[]"] obtain st1 where
      "recordSnapshot (NotFound v) [] st0 = Some st1" "rec_inv st1 t" by blast
    with s0 f None show ?thesis
      by (auto simp: rb_delete_def rec_inv_def)
  next
    case (Some z)
    with tg have z: "z \<in> set_tree t" by simp
    from recordSnapshot_inv [OF I0, of "DeletingNode v" "[nid (heap s z)]"] obtain st1 where
      r1: "recordSnapshot (DeletingNode v) [nid (heap s z)] st0 = Some st1"
      and ts1: "tree st1 = tree st0" and I1: "rec_inv st1 t" by blast
    let ?splice = "case left (heap (tree st1) z) of
            None \<Rightarrow> delete_no_left v z st1
          | Some zl \<Rightarrow>
              (case right (heap (tree st1) z) of
                 None \<Rightarrow> delete_no_right v z st1
               | Some zr \<Rightarrow> delete_two_children v z zr st1)"
    have "\<exists>r. ?splice = Some r \<and>
           (case r of (c, x, xParent, st') \<Rightarrow>
              \<exists>t'. rec_inv st' t' \<and> fix_position (tree st') t' x xParent)"
    proof (cases "left (heap (tree st1) z)")
      case None
      with delete_no_left_inv [OF I1 z None, of v] show ?thesis by simp
    next
      case zl: (Some zl)
      show ?thesis
      proof (cases "right (heap (tree st1) z)")
        case None
        with delete_no_right_inv [OF I1 z None, of v] zl show ?thesis by simp
      next
        case (Some zr)
        with delete_two_children_inv [OF I1 z Some, of v] zl show ?thesis by simp
      qed
    qed
    then obtain c x xParent st2 t2 where sp: "?splice = Some (c, x, xParent, st2)"
      and I2: "rec_inv st2 t2" and fp: "fix_position (tree st2) t2 x xParent" by auto
    have "\<exists>st3 t3. (if c = black then fixDelete x xParent st2 else Some st2) = Some st3 \<and>
        rec_inv st3 t3"
    proof (cases "c = black")
      case True
      with fixDelete_inv [OF I2 fp] show ?thesis by simp
    next
      case False
      with I2 show ?thesis by auto
    qed
    then obtain st3 t3 where
      fx: "(if c = black then fixDelete x xParent st2 else Some st2) = Some st3"
      and I3: "rec_inv st3 t3" by blast
    from delete_close_inv [OF I3] obtain st4 where
      dc: "delete_close st3 = Some st4" and I4: "rec_inv st4 t3" by blast
    from s0 f Some r1 sp fx dc have "rb_delete v s =
        Some (tree st4, \<lparr> label = Deleted v, snapshots = snaps st4 \<rparr>)"
      by (simp add: rb_delete_def)
    with I4 show ?thesis by (auto simp: rec_inv_def)
  qed
qed

subsection \<open>Every reachable tree\<close>

lemma emptyTree_inv: "tree_inv emptyTree Leaf"
  by (simp add: tree_inv_def wf_tree_def named_def emptyTree_def)

lemma perform_inv:
  assumes "tree_inv s t"
  shows "\<exists>s' r t'. perform oper s = Some (s', r) \<and> tree_inv s' t' \<and>
           (\<forall>sn \<in> set (snapshots r). good_export (nodes sn))"
proof (cases oper)
  case (Insert v)
  with rb_insert_inv [OF assms, of v] show ?thesis by (simp add: perform_def)
next
  case (Delete v)
  with rb_delete_inv [OF assms, of v] show ?thesis by (simp add: perform_def)
qed

lemma run_inv:
  "tree_inv s t \<Longrightarrow> \<exists>s' t'. run ops s = Some s' \<and> tree_inv s' t'"
proof (induction ops arbitrary: s t)
  case Nil
  then show ?case by (intro exI [of _ s] exI [of _ t]) simp
next
  case (Cons oper ops)
  from perform_inv [OF Cons.prems, of oper] obtain s1 r t1 where
    p: "perform oper s = Some (s1, r)" and t1: "tree_inv s1 t1" by blast
  from Cons.IH [OF t1] p show ?case by simp
qed

text \<open>
  C3, as the code behaves. Whatever sequence of insertions and deletions is run from the
  empty tree, it returns, the next insertion or deletion returns too with a record that
  has a first snapshot, and the diff of that snapshot is computed against the nodes
  exported from the tree as the operation found it, not against the empty set. Only when
  that tree was empty is every exported node in \<open>added\<close> and are the other three sets
  empty.
\<close>

theorem C3_first_diff:
  "\<exists>s. run ops emptyTree = Some s \<and>
     (\<exists>s' r ns0 snap more.
        perform oper s = Some (s', r) \<and> serializeTree s = Some ns0
        \<and> snapshots r = snap # more
        \<and> changes snap = diffSnapshots ns0 (nodes snap)
        \<and> (ns0 = [] \<longrightarrow>
             added (changes snap) = map (\<lambda>n. (sid n, svalue n)) (nodes snap)
             \<and> removed (changes snap) = [] \<and> recolored (changes snap) = []
             \<and> moved (changes snap) = []))"
proof -
  from run_inv [OF emptyTree_inv, of ops] obtain s t where
    r: "run ops emptyTree = Some s" and ti: "tree_inv s t" by blast
  from perform_inv [OF ti, of oper] obtain s' r' where
    p: "perform oper s = Some (s', r')" by blast
  from first_diff_of_result [OF p] obtain ns0 snap more where
    "serializeTree s = Some ns0" "snapshots r' = snap # more"
    "changes snap = diffSnapshots ns0 (nodes snap)"
    "ns0 = [] \<longrightarrow>
       added (changes snap) = map (\<lambda>n. (sid n, svalue n)) (nodes snap)
       \<and> removed (changes snap) = [] \<and> recolored (changes snap) = []
       \<and> moved (changes snap) = []" by blast
  with r p show ?thesis
    by (intro exI [of _ s] exI [of _ s'] exI [of _ r'] exI [of _ ns0] exI [of _ snap]
          exI [of _ more] conjI)
qed

theorem C3_first_diff_witness:
  "(\<exists>s' r snap more.
      run [] emptyTree = Some emptyTree \<and> serializeTree emptyTree = Some []
      \<and> perform (Insert 10) emptyTree = Some (s', r) \<and> snapshots r = snap # more
      \<and> nodes snap \<noteq> []
      \<and> added (changes snap) = map (\<lambda>n. (sid n, svalue n)) (nodes snap)
      \<and> removed (changes snap) = [] \<and> recolored (changes snap) = []
      \<and> moved (changes snap) = [])
   \<and> (\<exists>s' r ns0 snap more.
      run [Insert 10, Insert 5, Insert 15] emptyTree = Some exampleTree
      \<and> serializeTree exampleTree = Some ns0 \<and> ns0 \<noteq> []
      \<and> perform (Delete 10) exampleTree = Some (s', r) \<and> snapshots r = snap # more
      \<and> changes snap = diffSnapshots ns0 (nodes snap))"
proof -
  have e: "serializeTree emptyTree = Some []"
    by (simp add: eval_simps cong: bind_weak_cong)
  have "\<exists>s' r. perform (Insert 10) emptyTree = Some (s', r) \<and> nodes (hd (snapshots r)) \<noteq> []"
    by (simp add: eval_simps cong: bind_weak_cong)
  then obtain s1 r1 where p1: "perform (Insert 10) emptyTree = Some (s1, r1)"
    and n1: "nodes (hd (snapshots r1)) \<noteq> []" by blast
  from C3_first_diff [of "[]" "Insert 10"] e p1 n1
  have first: "\<exists>s' r snap more.
      run [] emptyTree = Some emptyTree \<and> serializeTree emptyTree = Some []
      \<and> perform (Insert 10) emptyTree = Some (s', r) \<and> snapshots r = snap # more
      \<and> nodes snap \<noteq> []
      \<and> added (changes snap) = map (\<lambda>n. (sid n, svalue n)) (nodes snap)
      \<and> removed (changes snap) = [] \<and> recolored (changes snap) = []
      \<and> moved (changes snap) = []"
    by auto
  have x: "\<exists>ns0. serializeTree exampleTree = Some ns0 \<and> ns0 \<noteq> []"
    by (simp add: eval_simps exampleTree_def cong: bind_weak_cong)
  from C3_first_diff [of "[Insert 10, Insert 5, Insert 15]" "Delete 10"] x exampleTree_reached
  have second: "\<exists>s' r ns0 snap more.
      run [Insert 10, Insert 5, Insert 15] emptyTree = Some exampleTree
      \<and> serializeTree exampleTree = Some ns0 \<and> ns0 \<noteq> []
      \<and> perform (Delete 10) exampleTree = Some (s', r) \<and> snapshots r = snap # more
      \<and> changes snap = diffSnapshots ns0 (nodes snap)"
    by auto
  from first second show ?thesis by (rule conjI)
qed

text \<open>
  C10. Whatever sequence of insertions and deletions is run from the empty tree, it
  returns, the next insertion or deletion returns too, and in the node list of every
  snapshot of its record the ids are pairwise distinct, an id named as left or right
  child belongs to a record of the list whose parent id is the id of the naming record,
  and a non-empty list has exactly one record without a parent id.
\<close>

theorem C10_snapshot_node_lists:
  "\<exists>s. run ops emptyTree = Some s \<and>
     (\<exists>s' r. perform oper s = Some (s', r) \<and>
        (\<forall>snap \<in> set (snapshots r).
           distinct (map sid (nodes snap)) \<and>
           (\<forall>n \<in> set (nodes snap). \<forall>i. leftId n = Some i \<or> rightId n = Some i \<longrightarrow>
              (\<exists>m \<in> set (nodes snap). sid m = i \<and> parentId m = Some (sid n))) \<and>
           (nodes snap \<noteq> [] \<longrightarrow>
              length (filter (\<lambda>n. parentId n = None) (nodes snap)) = 1)))"
proof -
  from run_inv [OF emptyTree_inv, of ops] obtain s t where
    r: "run ops emptyTree = Some s" and ti: "tree_inv s t" by blast
  from perform_inv [OF ti, of oper] obtain s' r' where
    p: "perform oper s = Some (s', r')"
    and g: "\<forall>sn \<in> set (snapshots r'). good_export (nodes sn)" by blast
  from g have "\<forall>snap \<in> set (snapshots r').
           distinct (map sid (nodes snap)) \<and>
           (\<forall>n \<in> set (nodes snap). \<forall>i. leftId n = Some i \<or> rightId n = Some i \<longrightarrow>
              (\<exists>m \<in> set (nodes snap). sid m = i \<and> parentId m = Some (sid n))) \<and>
           (nodes snap \<noteq> [] \<longrightarrow>
              length (filter (\<lambda>n. parentId n = None) (nodes snap)) = 1)"
    unfolding good_export_def .
  with r p show ?thesis by (intro exI [of _ s] exI [of _ s'] exI [of _ r'] conjI)
qed

theorem C10_snapshot_node_lists_witness:
  "\<exists>s' r snap n m.
     run [Insert 10, Insert 5, Insert 15] emptyTree = Some exampleTree \<and>
     perform (Delete 10) exampleTree = Some (s', r) \<and>
     snap \<in> set (snapshots r) \<and> n \<in> set (nodes snap) \<and> m \<in> set (nodes snap) \<and>
     leftId n = Some (sid m) \<and> parentId m = Some (sid n) \<and>
     distinct (map sid (nodes snap)) \<and>
     length (filter (\<lambda>n. parentId n = None) (nodes snap)) = 1"
proof -
  have "\<exists>s' r. perform (Delete 10) exampleTree = Some (s', r) \<and>
      snapshots r \<noteq> [] \<and> nodes (last (snapshots r)) \<noteq> [] \<and>
      leftId (hd (nodes (last (snapshots r)))) \<noteq> None"
    by (simp add: eval_simps exampleTree_def cong: bind_weak_cong)
  then obtain s' r i where p: "perform (Delete 10) exampleTree = Some (s', r)"
    and sn: "last (snapshots r) \<in> set (snapshots r)"
    and n: "hd (nodes (last (snapshots r))) \<in> set (nodes (last (snapshots r)))"
    and l: "leftId (hd (nodes (last (snapshots r)))) = Some i" by auto
  define snap where "snap = last (snapshots r)"
  define n where "n = hd (nodes snap)"
  note sn = sn [folded snap_def] and n = n [folded snap_def, folded n_def]
    and l = l [folded snap_def, folded n_def]
  from C10_snapshot_node_lists [of "[Insert 10, Insert 5, Insert 15]" "Delete 10"]
    exampleTree_reached p sn
  have d: "distinct (map sid (nodes snap))"
    and c: "\<forall>n \<in> set (nodes snap). \<forall>i. leftId n = Some i \<or> rightId n = Some i \<longrightarrow>
              (\<exists>m \<in> set (nodes snap). sid m = i \<and> parentId m = Some (sid n))"
    and o: "nodes snap \<noteq> [] \<longrightarrow>
              length (filter (\<lambda>n. parentId n = None) (nodes snap)) = 1"
    by auto
  from c n l obtain m where "m \<in> set (nodes snap)" "sid m = i" "parentId m = Some (sid n)"
    by blast
  moreover from n o have "length (filter (\<lambda>n. parentId n = None) (nodes snap)) = 1"
    by auto
  ultimately show ?thesis using exampleTree_reached p sn n l d by blast
qed

end
